theory Spec2Isabelle
  imports Main
begin

section \<open>Points and their comparators\<close>

text \<open>
  The class template \<open>FunctionMaximaImpl<A, V>\<close> of \<open>function_maxima.h\<close> compares
  arguments and values with \<open>std::less\<close>. The argument type and the value type are
  modelled as linearly ordered types, \<open>std::less<A>()(a, b)\<close> being \<open>a < b\<close>. A point
  holds its argument and its value behind shared pointers to constants; the payloads are
  immutable, so a point is the pair of the two payloads; \<open>value()\<close> is called \<open>val\<close>.
\<close>

datatype ('a, 'v) point_type = point_type (arg: 'a) (val: 'v)

definition ComparePointsByArguments ::
  "('a::linorder, 'v) point_type \<Rightarrow> ('a, 'v) point_type \<Rightarrow> bool" where
  "ComparePointsByArguments p q \<longleftrightarrow> arg p < arg q"

definition equivalentArguments :: "'a::linorder \<Rightarrow> 'a \<Rightarrow> bool" where
  "equivalentArguments a b \<longleftrightarrow> \<not> a < b \<and> \<not> b < a"

definition equivalentValues :: "'v::linorder \<Rightarrow> 'v \<Rightarrow> bool" where
  "equivalentValues a b \<longleftrightarrow> \<not> a < b \<and> \<not> b < a"

definition equivalentPoints ::
  "('a::linorder, 'v::linorder) point_type \<Rightarrow> ('a, 'v) point_type \<Rightarrow> bool" where
  "equivalentPoints pt1 pt2 \<longleftrightarrow>
     equivalentArguments (arg pt1) (arg pt2) \<and> equivalentValues (val pt1) (val pt2)"

definition valueLessOrEqual :: "'v::linorder \<Rightarrow> 'v \<Rightarrow> bool" where
  "valueLessOrEqual v1 v2 \<longleftrightarrow> v1 < v2 \<or> equivalentValues v1 v2"

definition ComparePointsByMaximaOrder ::
  "('a::linorder, 'v::linorder) point_type \<Rightarrow> ('a, 'v) point_type \<Rightarrow> bool" where
  "ComparePointsByMaximaOrder a b \<longleftrightarrow>
     val b < val a \<or> (equivalentValues (val a) (val b) \<and> arg a < arg b)"

section \<open>The two containers\<close>

text \<open>
  \<open>function\<close> is a \<open>std::multiset\<close> ordered by argument and \<open>localMaxima\<close> a
  \<open>std::set\<close> ordered by \<open>ComparePointsByMaximaOrder\<close>. Each is modelled by the list
  of its elements in iteration order. The field \<open>function\<close> is called \<open>func\<close> here.
\<close>

record ('a, 'v) FunctionMaximaImpl =
  func :: "('a, 'v) point_type list"
  localMaxima :: "('a, 'v) point_type list"

text \<open>
  An iterator into \<open>function\<close> is the position of its element, \<open>None\<close> being
  \<open>end()\<close>. An iterator into \<open>localMaxima\<close> is the element of the node it points to
  (the elements of a set are pairwise inequivalent), \<open>None\<close> being \<open>mx_end()\<close>.
\<close>

type_synonym iterator = "nat option"
type_synonym ('a, 'v) mx_iterator = "('a, 'v) point_type option"

definition fn_begin :: "('a, 'v) FunctionMaximaImpl \<Rightarrow> iterator" where
  "fn_begin fm = (if func fm = [] then None else Some 0)"

definition fn_end :: "('a, 'v) FunctionMaximaImpl \<Rightarrow> iterator" where
  "fn_end fm = None"

definition mx_end :: "('a, 'v) FunctionMaximaImpl \<Rightarrow> ('a, 'v) mx_iterator" where
  "mx_end fm = None"

definition deref :: "('a, 'v) FunctionMaximaImpl \<Rightarrow> iterator \<Rightarrow> ('a, 'v) point_type" where
  "deref fm it = func fm ! the it"

text \<open>
  \<open>std::next\<close> and \<open>std::prev\<close>. The source never steps forward from \<open>end()\<close> nor
  backward from \<open>begin()\<close> or \<open>end()\<close>; the model returns \<open>end()\<close> there.
\<close>

definition std_next :: "('a, 'v) FunctionMaximaImpl \<Rightarrow> iterator \<Rightarrow> iterator" where
  "std_next fm it =
     (case it of None \<Rightarrow> None
      | Some i \<Rightarrow> if Suc i < length (func fm) then Some (Suc i) else None)"

definition std_prev :: "('a, 'v) FunctionMaximaImpl \<Rightarrow> iterator \<Rightarrow> iterator" where
  "std_prev fm it =
     (case it of None \<Rightarrow> None
      | Some i \<Rightarrow> if i = 0 then None else Some (i - 1))"

text \<open>\<open>function.find(a)\<close>: the lower bound of \<open>a\<close>, if its argument is equivalent.\<close>

definition find_impl :: "('a::linorder, 'v) FunctionMaximaImpl \<Rightarrow> 'a \<Rightarrow> iterator" where
  "find_impl fm a =
     (let i = length (takeWhile (\<lambda>p. arg p < a) (func fm))
      in if i < length (func fm) \<and> \<not> a < arg (func fm ! i) then Some i else None)"

text \<open>
  \<open>function.insert(pt)\<close> of a multiset puts the point at the upper bound of the
  arguments equivalent to its own and returns its position. The iterators held before keep
  pointing to their elements, so a position at or behind the new one moves by one.
\<close>

definition function_insert ::
  "('a::linorder, 'v) point_type \<Rightarrow> ('a, 'v) point_type list \<Rightarrow> nat \<times> ('a, 'v) point_type list" where
  "function_insert pt xs =
     (let k = length (takeWhile (\<lambda>q. \<not> ComparePointsByArguments pt q) xs)
      in (k, take k xs @ pt # drop k xs))"

definition iterator_after_insert :: "nat \<Rightarrow> iterator \<Rightarrow> iterator" where
  "iterator_after_insert k it =
     (case it of None \<Rightarrow> None | Some i \<Rightarrow> Some (if i < k then i else Suc i))"

definition function_erase ::
  "iterator \<Rightarrow> ('a, 'v) FunctionMaximaImpl \<Rightarrow> ('a, 'v) FunctionMaximaImpl" where
  "function_erase it fm =
     (case it of None \<Rightarrow> fm
      | Some i \<Rightarrow> fm\<lparr>func := take i (func fm) @ drop (Suc i) (func fm)\<rparr>)"

text \<open>\<open>localMaxima.find\<close>, \<open>localMaxima.insert\<close> and \<open>localMaxima.erase(iterator)\<close>.\<close>

definition set_find ::
  "('a::linorder, 'v::linorder) point_type list \<Rightarrow> ('a, 'v) point_type \<Rightarrow> ('a, 'v) mx_iterator" where
  "set_find mx p =
     List.find (\<lambda>q. \<not> ComparePointsByMaximaOrder q p \<and> \<not> ComparePointsByMaximaOrder p q) mx"

fun set_insert ::
  "('a::linorder, 'v::linorder) point_type \<Rightarrow> ('a, 'v) point_type list \<Rightarrow> ('a, 'v) point_type list" where
  "set_insert p [] = [p]"
| "set_insert p (q # qs) =
     (if ComparePointsByMaximaOrder p q then p # q # qs
      else if ComparePointsByMaximaOrder q p then q # set_insert p qs
      else q # qs)"

definition set_erase ::
  "('a, 'v) mx_iterator \<Rightarrow> ('a, 'v) FunctionMaximaImpl \<Rightarrow> ('a, 'v) FunctionMaximaImpl" where
  "set_erase mxIt fm =
     (case mxIt of None \<Rightarrow> fm
      | Some p \<Rightarrow> fm\<lparr>localMaxima := remove1 p (localMaxima fm)\<rparr>)"

section \<open>Failures\<close>

text \<open>
  Every operation of the source that allocates or calls a comparator may throw. Each such
  place is a site; a fault plan says at which sites the operation throws when it is
  reached. \<open>InvalidArg\<close> is the exception of \<open>value_at\<close>, which it raises after its
  lookup has returned \<open>end()\<close>; the lookup itself is the site \<open>Find\<close>, in \<open>value_at\<close> as in
  \<open>set_value\<close> and \<open>erase\<close>. A plan may make a site throw where the source, on the state at
  hand, compares nothing (a lookup in an empty function): the model then has a failing run
  more than the source, never one less.
\<close>

datatype guard_pos = NextElement | CurrElement | PrevElement

datatype site =
    Find
  | MakePoint
  | EquivalentPoints
  | MxFind
  | FunctionInsert
  | GuardMxFind guard_pos
  | GuardIsLocalMaxima guard_pos
  | GuardInsert guard_pos
  | CloneImpl

datatype exn = InvalidArg | Failure site

type_synonym faults = "site \<Rightarrow> bool"

definition no_faults :: faults where
  "no_faults s = False"

definition fault_at :: "site \<Rightarrow> faults" where
  "fault_at s t = (t = s)"

section \<open>Private helpers of FunctionMaximaImpl\<close>

definition safePrev :: "('a, 'v) FunctionMaximaImpl \<Rightarrow> iterator \<Rightarrow> iterator" where
  "safePrev fm it =
     (if it \<noteq> fn_begin fm \<and> it \<noteq> fn_end fm then std_prev fm it else fn_end fm)"

definition safeNext :: "('a, 'v) FunctionMaximaImpl \<Rightarrow> iterator \<Rightarrow> iterator" where
  "safeNext fm it = (if it \<noteq> fn_end fm then std_next fm it else it)"

definition safePrevWithAvoid ::
  "('a, 'v) FunctionMaximaImpl \<Rightarrow> iterator \<Rightarrow> iterator \<Rightarrow> iterator" where
  "safePrevWithAvoid fm it ignore =
     (let prevIt = safePrev fm it
      in if prevIt = ignore then safePrev fm prevIt else prevIt)"

definition safeNextWithAvoid ::
  "('a, 'v) FunctionMaximaImpl \<Rightarrow> iterator \<Rightarrow> iterator \<Rightarrow> iterator" where
  "safeNextWithAvoid fm it ignore =
     (let nextIt = safeNext fm it
      in if nextIt = ignore then safeNext fm nextIt else nextIt)"

definition firstMaximaCondition ::
  "('a, 'v::linorder) FunctionMaximaImpl \<Rightarrow> iterator \<Rightarrow> iterator \<Rightarrow> bool" where
  "firstMaximaCondition fm it ignore =
     (if it = fn_end fm then False
      else if it = fn_begin fm then True
      else
        let leftIt0 = std_prev fm it;
            leftIt = (if leftIt0 = ignore then safePrev fm leftIt0 else leftIt0)
        in leftIt = fn_end fm \<or> valueLessOrEqual (val (deref fm leftIt)) (val (deref fm it)))"

definition secondMaximaCondition ::
  "('a, 'v::linorder) FunctionMaximaImpl \<Rightarrow> iterator \<Rightarrow> iterator \<Rightarrow> bool" where
  "secondMaximaCondition fm it ignore =
     (if it = fn_end fm then False
      else
        let rightIt0 = std_next fm it;
            rightIt = (if rightIt0 = ignore then safeNext fm rightIt0 else rightIt0)
        in rightIt = fn_end fm \<or> valueLessOrEqual (val (deref fm rightIt)) (val (deref fm it)))"

definition isLocalMaxima ::
  "('a, 'v::linorder) FunctionMaximaImpl \<Rightarrow> iterator \<Rightarrow> iterator \<Rightarrow> bool" where
  "isLocalMaxima fm it ignore \<longleftrightarrow>
     it \<noteq> ignore \<and> firstMaximaCondition fm it ignore \<and> secondMaximaCondition fm it ignore"

definition mxFind ::
  "('a::linorder, 'v::linorder) FunctionMaximaImpl \<Rightarrow> iterator \<Rightarrow> ('a, 'v) mx_iterator" where
  "mxFind fm it =
     (if it \<noteq> fn_end fm then set_find (localMaxima fm) (deref fm it) else mx_end fm)"

definition mxEraseIfNotEnd ::
  "('a, 'v) mx_iterator \<Rightarrow> ('a, 'v) FunctionMaximaImpl \<Rightarrow> ('a, 'v) FunctionMaximaImpl" where
  "mxEraseIfNotEnd it fm = (if it \<noteq> mx_end fm then set_erase it fm else fm)"

section \<open>ChangeLocalMaximaGuard\<close>

text \<open>
  The guard's fields; \<open>erase\<close> and \<open>insert\<close> are called \<open>erase_flag\<close> and
  \<open>insert_flag\<close>. The constructor either throws, leaving the implementation as it was
  (its only mutation, \<open>localMaxima.insert\<close>, is its last step that may throw and changes
  nothing when it does), or returns the guard and the implementation. When \<open>it\<close> is
  \<open>end()\<close> neither \<open>mxFind\<close> nor \<open>isLocalMaxima\<close> calls a comparator.
\<close>

record ('a, 'v) ChangeLocalMaximaGuard =
  reverse :: bool
  erase_flag :: bool
  insert_flag :: bool
  mxIt :: "('a, 'v) mx_iterator"

definition guard_init :: "('a, 'v) ChangeLocalMaximaGuard" where
  "guard_init = \<lparr>reverse = True, erase_flag = False, insert_flag = False, mxIt = None\<rparr>"

definition guard_ctor ::
  "faults \<Rightarrow> guard_pos \<Rightarrow> iterator \<Rightarrow> iterator \<Rightarrow> ('a::linorder, 'v::linorder) FunctionMaximaImpl
     \<Rightarrow> exn + (('a, 'v) ChangeLocalMaximaGuard \<times> ('a, 'v) FunctionMaximaImpl)" where
  "guard_ctor F pos it ignore fm =
     (if it = ignore then Inr (guard_init, fm)
      else if it \<noteq> fn_end fm \<and> F (GuardMxFind pos) then Inl (Failure (GuardMxFind pos))
      else
        let mxIt0 = mxFind fm it;
            wasLocalMaxima = (mxIt0 \<noteq> mx_end fm)
        in if it \<noteq> fn_end fm \<and> F (GuardIsLocalMaxima pos)
           then Inl (Failure (GuardIsLocalMaxima pos))
           else
             let isLocalMaxima' = isLocalMaxima fm it ignore
             in if isLocalMaxima' then
                  (if \<not> wasLocalMaxima then
                     (if F (GuardInsert pos) then Inl (Failure (GuardInsert pos))
                      else
                        let mx' = set_insert (deref fm it) (localMaxima fm)
                        in Inr (guard_init\<lparr>mxIt := set_find mx' (deref fm it), insert_flag := True\<rparr>,
                                fm\<lparr>localMaxima := mx'\<rparr>))
                   else Inr (guard_init\<lparr>mxIt := mxIt0\<rparr>, fm))
                else if wasLocalMaxima then Inr (guard_init\<lparr>mxIt := mxIt0, erase_flag := True\<rparr>, fm)
                else Inr (guard_init\<lparr>mxIt := mxIt0\<rparr>, fm))"

definition guard_done :: "('a, 'v) ChangeLocalMaximaGuard \<Rightarrow> ('a, 'v) ChangeLocalMaximaGuard" where
  "guard_done g = g\<lparr>reverse := False\<rparr>"

definition guard_dtor ::
  "('a, 'v) ChangeLocalMaximaGuard \<Rightarrow> ('a, 'v) FunctionMaximaImpl \<Rightarrow> ('a, 'v) FunctionMaximaImpl" where
  "guard_dtor g fm =
     (if reverse g then (if insert_flag g then set_erase (mxIt g) fm else fm)
      else (if erase_flag g then set_erase (mxIt g) fm else fm))"

section \<open>Public operations of FunctionMaximaImpl\<close>

text \<open>
  The body of the \<open>try\<close> block of \<open>set_value\<close>: three guards are built, marked done and
  destroyed in reverse order at the end of the block; when a constructor throws, the guards
  built before it are destroyed during unwinding, not marked done.
\<close>

definition set_value_guards ::
  "faults \<Rightarrow> iterator \<Rightarrow> iterator \<Rightarrow> ('a::linorder, 'v::linorder) FunctionMaximaImpl
     \<Rightarrow> exn option \<times> ('a, 'v) FunctionMaximaImpl" where
  "set_value_guards F fnIt it fm =
     (case guard_ctor F NextElement (safeNextWithAvoid fm fnIt it) it fm of
        Inl e \<Rightarrow> (Some e, fm)
      | Inr (nextElementGuard, fm1) \<Rightarrow>
          (case guard_ctor F CurrElement fnIt it fm1 of
             Inl e \<Rightarrow> (Some e, guard_dtor nextElementGuard fm1)
           | Inr (currElementGuard, fm2) \<Rightarrow>
               (case guard_ctor F PrevElement (safePrevWithAvoid fm2 fnIt it) it fm2 of
                  Inl e \<Rightarrow> (Some e, guard_dtor nextElementGuard (guard_dtor currElementGuard fm2))
                | Inr (prevElementGuard, fm3) \<Rightarrow>
                    (None,
                     guard_dtor (guard_done nextElementGuard)
                       (guard_dtor (guard_done currElementGuard)
                          (guard_dtor (guard_done prevElementGuard) fm3))))))"

definition set_value ::
  "faults \<Rightarrow> 'a \<Rightarrow> 'v \<Rightarrow> ('a::linorder, 'v::linorder) FunctionMaximaImpl
     \<Rightarrow> exn option \<times> ('a, 'v) FunctionMaximaImpl" where
  "set_value F a v fm =
     (if F Find then (Some (Failure Find), fm)
      else
        let it = find_impl fm a
        in if F MakePoint then (Some (Failure MakePoint), fm)
           else
             let pt = point_type a v
             in if it \<noteq> fn_end fm \<and> F EquivalentPoints then (Some (Failure EquivalentPoints), fm)
                else if it \<noteq> fn_end fm \<and> equivalentPoints (deref fm it) pt then (None, fm)
                else if it \<noteq> fn_end fm \<and> F MxFind then (Some (Failure MxFind), fm)
                else
                  let mxIt0 = mxFind fm it
                  in if F FunctionInsert then (Some (Failure FunctionInsert), fm)
                     else
                       let (k, xs) = function_insert pt (func fm);
                           fnIt = Some k;
                           it' = iterator_after_insert k it;
                           fm1 = fm\<lparr>func := xs\<rparr>
                       in (case set_value_guards F fnIt it' fm1 of
                             (Some e, fm2) \<Rightarrow> (Some e, function_erase fnIt fm2)
                           | (None, fm2) \<Rightarrow>
                               (None,
                                if it' \<noteq> fn_end fm2
                                then mxEraseIfNotEnd mxIt0 (function_erase it' fm2)
                                else fm2)))"

text \<open>
  \<open>erase\<close> has no \<open>try\<close> block: its two guards live to the end of the \<open>if\<close> block, so
  they are destroyed after the point has left both containers.
\<close>

definition erase ::
  "faults \<Rightarrow> 'a \<Rightarrow> ('a::linorder, 'v::linorder) FunctionMaximaImpl
     \<Rightarrow> exn option \<times> ('a, 'v) FunctionMaximaImpl" where
  "erase F a fm =
     (if F Find then (Some (Failure Find), fm)
      else
        let it = find_impl fm a
        in if it \<noteq> fn_end fm \<and> F MxFind then (Some (Failure MxFind), fm)
           else
             let mxIt0 = mxFind fm it
             in if it \<noteq> fn_end fm then
                  (case guard_ctor F NextElement (safeNext fm it) it fm of
                     Inl e \<Rightarrow> (Some e, fm)
                   | Inr (nextElementGuard, fm1) \<Rightarrow>
                       (case guard_ctor F PrevElement (safePrev fm1 it) it fm1 of
                          Inl e \<Rightarrow> (Some e, guard_dtor nextElementGuard fm1)
                        | Inr (prevElementGuard, fm2) \<Rightarrow>
                            (None,
                             guard_dtor (guard_done nextElementGuard)
                               (guard_dtor (guard_done prevElementGuard)
                                  (mxEraseIfNotEnd mxIt0 (function_erase it fm2))))))
                else (None, fm))"

definition value_at ::
  "faults \<Rightarrow> ('a::linorder, 'v) FunctionMaximaImpl \<Rightarrow> 'a \<Rightarrow> exn + 'v" where
  "value_at F fm a =
     (if F Find then Inl (Failure Find)
      else
        let it = find_impl fm a
        in if it = fn_end fm then Inl InvalidArg else Inr (val (deref fm it)))"

definition size_impl :: "('a, 'v) FunctionMaximaImpl \<Rightarrow> nat" where
  "size_impl fm = length (func fm)"

text \<open>The sequences from \<open>begin()\<close> to \<open>end()\<close> and from \<open>mx_begin()\<close> to \<open>mx_end()\<close>.\<close>

definition traversal :: "('a, 'v) FunctionMaximaImpl \<Rightarrow> ('a, 'v) point_type list" where
  "traversal fm = func fm"

definition mx_traversal :: "('a, 'v) FunctionMaximaImpl \<Rightarrow> ('a, 'v) point_type list" where
  "mx_traversal fm = localMaxima fm"

definition empty_impl :: "('a, 'v) FunctionMaximaImpl" where
  "empty_impl = \<lparr>func = [], localMaxima = []\<rparr>"

section \<open>The copy-on-write handle FunctionMaxima\<close>

text \<open>
  A handle holds \<open>cow\<close>, a shared pointer to an implementation. The implementations live in
  a heap, addressed by position; the handles of a program are numbered, and \<open>cow w ! h\<close> is
  the address handle \<open>h\<close> points to. \<open>use_count\<close> of an address is the number of handles
  pointing to it.
\<close>

record ('a, 'v) world =
  heap :: "('a, 'v) FunctionMaximaImpl list"
  cow :: "nat list"

definition empty_world :: "('a, 'v) world" where
  "empty_world = \<lparr>heap = [], cow = []\<rparr>"

definition use_count :: "('a, 'v) world \<Rightarrow> nat \<Rightarrow> nat" where
  "use_count w p = count_list (cow w) p"

definition impl_of :: "('a, 'v) world \<Rightarrow> nat \<Rightarrow> ('a, 'v) FunctionMaximaImpl" where
  "impl_of w h = heap w ! (cow w ! h)"

text \<open>The default constructor allocates an empty implementation; the copy constructor
  shares the pointer of the handle it copies.\<close>

definition FunctionMaxima_new :: "('a, 'v) world \<Rightarrow> ('a, 'v) world" where
  "FunctionMaxima_new w = w\<lparr>heap := heap w @ [empty_impl], cow := cow w @ [length (heap w)]\<rparr>"

definition FunctionMaxima_copy :: "nat \<Rightarrow> ('a, 'v) world \<Rightarrow> ('a, 'v) world" where
  "FunctionMaxima_copy h w = w\<lparr>cow := cow w @ [cow w ! h]\<rparr>"

text \<open>
  \<open>cowMutator\<close>: when the implementation is shared, it is cloned to a fresh address, the
  handle is pointed to the clone and the mutation runs on the clone; when the clone or the
  mutation throws, the handle is pointed back to \<open>cowBackup\<close>, which destroys the clone.
  Otherwise the mutation runs in place.
\<close>

definition cowMutator ::
  "faults \<Rightarrow> (('a, 'v) FunctionMaximaImpl \<Rightarrow> exn option \<times> ('a, 'v) FunctionMaximaImpl)
     \<Rightarrow> nat \<Rightarrow> ('a, 'v) world \<Rightarrow> exn option \<times> ('a, 'v) world" where
  "cowMutator F f h w =
     (let p = cow w ! h
      in if use_count w p > 1 then
           (let cowBackup = p
            in if F CloneImpl then (Some (Failure CloneImpl), w\<lparr>cow := (cow w)[h := cowBackup]\<rparr>)
               else
                 let q = length (heap w);
                     w1 = w\<lparr>heap := heap w @ [heap w ! p], cow := (cow w)[h := q]\<rparr>
                 in (case f (heap w1 ! q) of
                       (Some e, fm') \<Rightarrow>
                         (Some e, w1\<lparr>heap := take q (heap w1), cow := (cow w1)[h := cowBackup]\<rparr>)
                     | (None, fm') \<Rightarrow> (None, w1\<lparr>heap := (heap w1)[q := fm']\<rparr>)))
         else
           (case f (heap w ! p) of (r, fm') \<Rightarrow> (r, w\<lparr>heap := (heap w)[p := fm']\<rparr>)))"

definition fm_set_value ::
  "faults \<Rightarrow> nat \<Rightarrow> 'a \<Rightarrow> 'v \<Rightarrow> ('a::linorder, 'v::linorder) world \<Rightarrow> exn option \<times> ('a, 'v) world" where
  "fm_set_value F h a v w = cowMutator F (set_value F a v) h w"

definition fm_erase ::
  "faults \<Rightarrow> nat \<Rightarrow> 'a \<Rightarrow> ('a::linorder, 'v::linorder) world \<Rightarrow> exn option \<times> ('a, 'v) world" where
  "fm_erase F h a w = cowMutator F (erase F a) h w"

definition fm_value_at ::
  "faults \<Rightarrow> ('a::linorder, 'v) world \<Rightarrow> nat \<Rightarrow> 'a \<Rightarrow> exn + 'v" where
  "fm_value_at F w h a = value_at F (impl_of w h) a"

definition fm_size :: "('a, 'v) world \<Rightarrow> nat \<Rightarrow> nat" where
  "fm_size w h = size_impl (impl_of w h)"

definition fm_traversal :: "('a, 'v) world \<Rightarrow> nat \<Rightarrow> ('a, 'v) point_type list" where
  "fm_traversal w h = traversal (impl_of w h)"

definition fm_mx_traversal :: "('a, 'v) world \<Rightarrow> nat \<Rightarrow> ('a, 'v) point_type list" where
  "fm_mx_traversal w h = mx_traversal (impl_of w h)"

text \<open>
  Programs over handles: a call constructs a handle, copies one, or mutates through one,
  under a fault plan of its own. A call names the handle it works through by its number; a
  call through a handle that does not exist is not a program and leaves the world as it is.
\<close>

datatype ('a, 'v) call =
    Construct
  | Copy nat
  | SetValue faults nat 'a 'v
  | Erase faults nat 'a

fun step :: "('a::linorder, 'v::linorder) call \<Rightarrow> ('a, 'v) world \<Rightarrow> ('a, 'v) world" where
  "step Construct w = FunctionMaxima_new w"
| "step (Copy h) w = (if h < length (cow w) then FunctionMaxima_copy h w else w)"
| "step (SetValue F h a v) w = (if h < length (cow w) then snd (fm_set_value F h a v w) else w)"
| "step (Erase F h a) w = (if h < length (cow w) then snd (fm_erase F h a w) else w)"

fun exec :: "('a::linorder, 'v::linorder) call list \<Rightarrow> ('a, 'v) world \<Rightarrow> ('a, 'v) world" where
  "exec [] w = w"
| "exec (c # cs) w = exec cs (step c w)"

section \<open>The local-maximum predicate and the maxima order, as the specification words them\<close>

text \<open>
  A stored point is a local maximum iff it has no left neighbour in argument order or the
  left neighbour's value is at most its own, and likewise on the right. The maxima are listed
  by decreasing value, ties broken by increasing argument.
\<close>

definition is_local_maximum :: "('a, 'v::linorder) point_type list \<Rightarrow> nat \<Rightarrow> bool" where
  "is_local_maximum fn i \<longleftrightarrow>
     i < length fn \<and>
     (i = 0 \<or> val (fn ! (i - 1)) \<le> val (fn ! i)) \<and>
     (Suc i = length fn \<or> val (fn ! Suc i) \<le> val (fn ! i))"

definition maxima_order ::
  "('a::linorder, 'v::linorder) point_type \<Rightarrow> ('a, 'v) point_type \<Rightarrow> bool" where
  "maxima_order p q \<longleftrightarrow> val q < val p \<or> (val p = val q \<and> arg p < arg q)"

definition rescan :: "('a, 'v::linorder) point_type list \<Rightarrow> ('a, 'v) point_type set" where
  "rescan fn = {fn ! i | i. is_local_maximum fn i}"

definition unique_arguments :: "('a::linorder, 'v) point_type list \<Rightarrow> bool" where
  "unique_arguments fn \<longleftrightarrow> sorted_wrt (\<lambda>p q. arg p < arg q) fn"

definition invariant :: "('a::linorder, 'v::linorder) FunctionMaximaImpl \<Rightarrow> bool" where
  "invariant fm \<longleftrightarrow>
     unique_arguments (func fm) \<and>
     sorted_wrt maxima_order (localMaxima fm) \<and>
     set (localMaxima fm) = rescan (func fm)"

section \<open>Well-formed worlds, observations and programs that leave an argument alone\<close>

text \<open>
  In a well-formed world every handle points into the heap and every implementation
  satisfies the invariant. What a caller can observe through a handle is \<open>size()\<close>, the two
  traversals and the result of \<open>value_at\<close> for every argument, under every fault plan of
  the lookup.
\<close>

definition wf_world :: "('a::linorder, 'v::linorder) world \<Rightarrow> bool" where
  "wf_world w \<longleftrightarrow>
     (\<forall>p\<in>set (cow w). p < length (heap w)) \<and> (\<forall>fm\<in>set (heap w). invariant fm)"

definition observe ::
  "('a::linorder, 'v) world \<Rightarrow> nat
     \<Rightarrow> nat \<times> ('a, 'v) point_type list \<times> ('a, 'v) point_type list
        \<times> (faults \<Rightarrow> 'a \<Rightarrow> exn + 'v)" where
  "observe w h =
     (fm_size w h, fm_traversal w h, fm_mx_traversal w h, \<lambda>F. fm_value_at F w h)"

text \<open>\<open>reinserts h a cs\<close>: some call of \<open>cs\<close> is a \<open>set_value\<close> of argument \<open>a\<close> through handle \<open>h\<close>.\<close>

fun reinserts :: "nat \<Rightarrow> 'a \<Rightarrow> ('a, 'v) call list \<Rightarrow> bool" where
  "reinserts h a [] = False"
| "reinserts h a (Construct # cs) = reinserts h a cs"
| "reinserts h a (Copy h' # cs) = reinserts h a cs"
| "reinserts h a (SetValue F h' a' v # cs) = ((h' = h \<and> a' = a) \<or> reinserts h a cs)"
| "reinserts h a (Erase F h' a' # cs) = reinserts h a cs"

section \<open>Concrete states used to exercise the theorems\<close>

definition plateau_impl :: "(int, int) FunctionMaximaImpl" where
  "plateau_impl =
     \<lparr>func = [point_type 1 10, point_type 2 20, point_type 3 30, point_type 4 40, point_type 5 30],
       localMaxima = [point_type 4 40]\<rparr>"

definition shared_world :: "(int, int) world" where
  "shared_world = \<lparr>heap = [plateau_impl], cow = [0, 0]\<rparr>"

definition scenario :: "(int, int) call list" where
  "scenario =
     [Construct,
      SetValue no_faults 0 1 10, SetValue no_faults 0 2 20, SetValue no_faults 0 3 10,
      SetValue no_faults 0 4 30, SetValue no_faults 0 5 5]"

section \<open>Facts about the comparators and the containers\<close>

lemma equivalentValues_iff [simp]: "equivalentValues a b \<longleftrightarrow> a = b"
  by (auto simp: equivalentValues_def)

lemma equivalentArguments_iff [simp]: "equivalentArguments a b \<longleftrightarrow> a = b"
  by (auto simp: equivalentArguments_def)

lemma equivalentPoints_iff [simp]: "equivalentPoints p q \<longleftrightarrow> p = q"
  by (auto simp: equivalentPoints_def point_type.expand)

lemma valueLessOrEqual_iff [simp]: "valueLessOrEqual a b \<longleftrightarrow> a \<le> b"
  by (auto simp: valueLessOrEqual_def)

lemma ComparePointsByMaximaOrder_iff: "ComparePointsByMaximaOrder p q \<longleftrightarrow> maxima_order p q"
  by (simp add: ComparePointsByMaximaOrder_def maxima_order_def)

lemma maxima_order_irrefl [simp]: "\<not> maxima_order p p"
  by (simp add: maxima_order_def)

lemma maxima_order_trans: "maxima_order p q \<Longrightarrow> maxima_order q r \<Longrightarrow> maxima_order p r"
  by (auto simp: maxima_order_def)

lemma maxima_order_total: "maxima_order p q \<or> p = q \<or> maxima_order q p"
  by (cases p; cases q) (auto simp: maxima_order_def)

lemma maxima_order_asym: "maxima_order p q \<Longrightarrow> \<not> maxima_order q p"
  by (auto simp: maxima_order_def)

lemma maxima_equiv_iff:
  "\<not> ComparePointsByMaximaOrder q p \<and> \<not> ComparePointsByMaximaOrder p q \<longleftrightarrow> q = p"
  using maxima_order_total [of p q] by (auto simp: ComparePointsByMaximaOrder_iff)

lemma set_find_eq: "set_find mx p = (if p \<in> set mx then Some p else None)"
  unfolding set_find_def maxima_equiv_iff
  by (induction mx) auto

lemma maxima_order_equal: "\<not> maxima_order q p \<Longrightarrow> \<not> maxima_order p q \<Longrightarrow> q = p"
  using maxima_order_total [of p q] by auto

lemma set_set_insert [simp]: "set (set_insert p mx) = insert p (set mx)"
  by (induction mx) (auto simp: ComparePointsByMaximaOrder_iff dest: maxima_order_equal)

lemma remove1_set_insert: "p \<notin> set mx \<Longrightarrow> remove1 p (set_insert p mx) = mx"
  by (induction mx) (auto simp: ComparePointsByMaximaOrder_iff dest: maxima_order_equal)

lemma sorted_set_insert:
  "sorted_wrt maxima_order mx \<Longrightarrow> sorted_wrt maxima_order (set_insert p mx)"
  by (induction mx)
    (auto simp: ComparePointsByMaximaOrder_iff dest: maxima_order_equal maxima_order_trans)

lemma sorted_remove1:
  "sorted_wrt maxima_order mx \<Longrightarrow> sorted_wrt maxima_order (remove1 p mx)"
  by (induction mx) (auto dest: notin_set_remove1)

lemma sorted_maxima_distinct: "sorted_wrt maxima_order mx \<Longrightarrow> distinct mx"
  by (induction mx) auto

lemma mxFind_eq:
  "mxFind fm it =
     (case it of None \<Rightarrow> None
      | Some i \<Rightarrow> if func fm ! i \<in> set (localMaxima fm) then Some (func fm ! i) else None)"
  by (simp add: mxFind_def set_find_eq fn_end_def mx_end_def deref_def split: option.splits)

lemma isLocalMaxima_end [simp]: "\<not> isLocalMaxima fm None ig"
  by (simp add: isLocalMaxima_def firstMaximaCondition_def fn_end_def)

lemma mxFind_neq_end:
  "mxFind fm it \<noteq> mx_end fm \<longleftrightarrow> (\<exists>i. it = Some i \<and> func fm ! i \<in> set (localMaxima fm))"
  by (simp add: mxFind_eq mx_end_def split: option.splits)

lemma guard_ctor_rollback:
  "guard_ctor F pos it ig fm = Inr (g, fm') \<Longrightarrow> guard_dtor g fm' = fm"
  by (cases it)
    (auto simp: guard_ctor_def guard_dtor_def guard_init_def Let_def mxFind_neq_end set_find_eq
      set_erase_def fn_end_def remove1_set_insert deref_def split: if_splits)

lemma guard_ctor_Failure:
  "guard_ctor F pos it ig fm = Inl e \<Longrightarrow> \<exists>s. e = Failure s \<and> F s"
  by (auto simp: guard_ctor_def Let_def split: if_splits)

lemma set_value_guards_rollback:
  "set_value_guards F fnIt it fm = (Some e, fm') \<Longrightarrow> fm' = fm \<and> (\<exists>s. e = Failure s \<and> F s)"
  by (auto simp: set_value_guards_def guard_ctor_rollback split: sum.splits prod.splits
      dest!: guard_ctor_Failure)

lemma function_erase_insert:
  "function_insert pt (func fm) = (k, xs) \<Longrightarrow> function_erase (Some k) (fm\<lparr>func := xs\<rparr>) = fm"
proof -
  assume h: "function_insert pt (func fm) = (k, xs)"
  then have k: "k \<le> length (func fm)" and xs: "xs = take k (func fm) @ pt # drop k (func fm)"
    by (auto simp: function_insert_def Let_def intro: length_takeWhile_le)
  show ?thesis using k by (simp add: function_erase_def xs)
qed

lemma set_value_rollback:
  "set_value F a v fm = (Some e, fm') \<Longrightarrow> fm' = fm \<and> (\<exists>s. e = Failure s \<and> F s)"
  unfolding set_value_def Let_def
  by (auto split: if_splits prod.splits option.splits dest!: set_value_guards_rollback
      simp: function_erase_insert)

lemma erase_rollback:
  "erase F a fm = (Some e, fm') \<Longrightarrow> fm' = fm \<and> (\<exists>s. e = Failure s \<and> F s)"
  unfolding erase_def Let_def
  by (auto split: if_splits prod.splits option.splits sum.splits dest!: guard_ctor_Failure
      simp: guard_ctor_rollback)

lemma cowMutator_rollback:
  assumes f: "\<And>fm e fm'. f fm = (Some e, fm') \<Longrightarrow> fm' = fm \<and> (\<exists>s. e = Failure s \<and> F s)"
  shows "cowMutator F f h w = (Some e, w') \<Longrightarrow> w' = w \<and> (\<exists>s. e = Failure s \<and> F s)"
  unfolding cowMutator_def Let_def
  by (auto split: if_splits prod.splits option.splits dest!: f)

section \<open>Strong failure guarantee\<close>

text \<open>
  Claim C2. When \<open>set_value\<close> or \<open>erase\<close> fails, in the implementation or through a
  handle (shared or not), the exception that reaches the caller is the failure of a site
  of the fault plan, and the state after the call is the state before it: both containers,
  hence \<open>size()\<close>, every \<open>value_at\<close> and both traversals, and for a handle the whole world
  of handles and implementations.
\<close>

theorem strong_failure_guarantee:
  "(set_value F a v fm = (Some e1, fm1) \<longrightarrow> fm1 = fm \<and> (\<exists>s. e1 = Failure s \<and> F s)) \<and>
   (erase F a fm = (Some e2, fm2) \<longrightarrow> fm2 = fm \<and> (\<exists>s. e2 = Failure s \<and> F s)) \<and>
   (fm_set_value F h a v w = (Some e3, w3) \<longrightarrow> w3 = w \<and> (\<exists>s. e3 = Failure s \<and> F s)) \<and>
   (fm_erase F h a w = (Some e4, w4) \<longrightarrow> w4 = w \<and> (\<exists>s. e4 = Failure s \<and> F s))"
  using set_value_rollback [of F a v fm e1 fm1] erase_rollback [of F a fm e2 fm2]
    cowMutator_rollback [of "set_value F a v" F h w e3 w3, OF set_value_rollback]
    cowMutator_rollback [of "erase F a" F h w e4 w4, OF erase_rollback]
  by (simp add: fm_set_value_def fm_erase_def)

text \<open>
  The guarantee at work: with a plateau around the point at 4, lowering or erasing that
  point makes both neighbours maxima; the neighbour behind is inserted first, and when
  the insertion of the neighbour before fails the first insertion is undone.
\<close>

theorem strong_failure_guarantee_witness:
  "fst (set_value (fault_at (GuardInsert PrevElement)) 4 1 plateau_impl)
     = Some (Failure (GuardInsert PrevElement)) \<and>
   snd (set_value (fault_at (GuardInsert PrevElement)) 4 1 plateau_impl) = plateau_impl \<and>
   fst (erase (fault_at (GuardInsert PrevElement)) 4 plateau_impl)
     = Some (Failure (GuardInsert PrevElement)) \<and>
   snd (erase (fault_at (GuardInsert PrevElement)) 4 plateau_impl) = plateau_impl \<and>
   fst (fm_set_value (fault_at (GuardInsert PrevElement)) 1 4 1 shared_world)
     = Some (Failure (GuardInsert PrevElement)) \<and>
   snd (fm_set_value (fault_at (GuardInsert PrevElement)) 1 4 1 shared_world) = shared_world \<and>
   fst (fm_erase (fault_at (GuardInsert PrevElement)) 1 4 shared_world)
     = Some (Failure (GuardInsert PrevElement)) \<and>
   snd (fm_erase (fault_at (GuardInsert PrevElement)) 1 4 shared_world) = shared_world"
proof -
  let ?F = "fault_at (GuardInsert PrevElement)"
  let ?e = "Failure (GuardInsert PrevElement)"
  have h1: "fst (set_value ?F 4 1 plateau_impl) = Some ?e" by code_simp
  have h2: "fst (erase ?F 4 plateau_impl) = Some ?e" by code_simp
  have h3: "fst (fm_set_value ?F 1 4 1 shared_world) = Some ?e" by code_simp
  have h4: "fst (fm_erase ?F 1 4 shared_world) = Some ?e" by code_simp
  from h1 h2 h3 h4
    strong_failure_guarantee [of ?F 4 1 plateau_impl ?e "snd (set_value ?F 4 1 plateau_impl)"
      ?e "snd (erase ?F 4 plateau_impl)" 1 shared_world
      ?e "snd (fm_set_value ?F 1 4 1 shared_world)" ?e "snd (fm_erase ?F 1 4 shared_world)"]
  show ?thesis by (simp add: prod_eq_iff)
qed

section \<open>The local-maximum test of the source against the predicate\<close>

lemma isLocalMaxima_no_ignore:
  "i < length (func fm) \<Longrightarrow> isLocalMaxima fm (Some i) None = is_local_maximum (func fm) i"
  by (auto simp: isLocalMaxima_def firstMaximaCondition_def secondMaximaCondition_def
      is_local_maximum_def fn_end_def fn_begin_def std_prev_def std_next_def safeNext_def
      safePrev_def deref_def Let_def)

lemma nth_erase:
  "g < length xs \<Longrightarrow> j < length xs - 1 \<Longrightarrow>
   (take g xs @ drop (Suc g) xs) ! j = (if j < g then xs ! j else xs ! Suc j)"
  by (auto simp: nth_append min_def)

lemma length_erase: "g < length xs \<Longrightarrow> length (take g xs @ drop (Suc g) xs) = length xs - 1"
  by auto

lemma firstMaximaCondition_ignore:
  assumes "i < length (func fm)" "g < length (func fm)" "i \<noteq> g"
  shows "firstMaximaCondition fm (Some i) (Some g) \<longleftrightarrow>
     (let xs = take g (func fm) @ drop (Suc g) (func fm); j = (if i < g then i else i - 1)
      in j = 0 \<or> val (xs ! (j - 1)) \<le> val (xs ! j))"
proof -
  consider "i = 0" | "0 < i" "i < g" | "i = Suc g" "g = 0" | "i = Suc g" "0 < g" | "Suc g < i"
    using assms by linarith
  then show ?thesis
  proof cases
    case 1
    then show ?thesis using assms
      by (simp add: firstMaximaCondition_def fn_end_def fn_begin_def)
  next
    case 2
    then show ?thesis using assms
      by (auto simp: firstMaximaCondition_def fn_end_def fn_begin_def std_prev_def
          safePrev_def deref_def Let_def nth_erase)
  next
    case 3
    then show ?thesis using assms
      by (auto simp: firstMaximaCondition_def fn_end_def fn_begin_def std_prev_def
          safePrev_def deref_def Let_def)
  next
    case 4
    then show ?thesis using assms
      by (auto simp: firstMaximaCondition_def fn_end_def fn_begin_def std_prev_def
          safePrev_def deref_def Let_def nth_erase)
  next
    case 5
    then have "i - 1 - 1 < length (func fm) - 1" "i - 1 < length (func fm) - 1"
       "\<not> i - 1 - 1 < g" "\<not> i - 1 < g" "Suc (i - 1 - 1) = i - 1" "Suc (i - 1) = i"
      using assms by linarith+
    with 5 show ?thesis using assms
      by (auto simp: firstMaximaCondition_def fn_end_def fn_begin_def std_prev_def
          safePrev_def deref_def Let_def nth_erase)
  qed
qed

lemma secondMaximaCondition_ignore:
  assumes "i < length (func fm)" "g < length (func fm)" "i \<noteq> g"
  shows "secondMaximaCondition fm (Some i) (Some g) \<longleftrightarrow>
     (let xs = take g (func fm) @ drop (Suc g) (func fm); j = (if i < g then i else i - 1)
      in Suc j = length xs \<or> val (xs ! Suc j) \<le> val (xs ! j))"
proof -
  let ?n = "length (func fm)"
  consider "g < i" "Suc i = ?n" | "g < i" "Suc i < ?n" | "Suc i = g" "Suc g = ?n"
    | "Suc i = g" "Suc g < ?n" | "Suc i < g"
    using assms by linarith
  then show ?thesis
  proof cases
    case 1
    then have "i = ?n - 1" by linarith
    with 1 show ?thesis using assms
      by (auto simp: secondMaximaCondition_def fn_end_def std_next_def safeNext_def Let_def)
  next
    case 2
    then have "i - 1 < ?n - 1" "Suc (i - 1) < ?n - 1" "\<not> i - 1 < g" "\<not> Suc (i - 1) < g"
       "Suc (i - 1) = i"
      using assms by linarith+
    with 2 show ?thesis using assms
      by (auto simp: secondMaximaCondition_def fn_end_def std_next_def safeNext_def
          deref_def Let_def nth_erase)
  next
    case 3
    then show ?thesis using assms
      by (auto simp: secondMaximaCondition_def fn_end_def std_next_def safeNext_def
          deref_def Let_def)
  next
    case 4
    then show ?thesis using assms
      by (auto simp: secondMaximaCondition_def fn_end_def std_next_def safeNext_def
          deref_def Let_def nth_erase)
  next
    case 5
    then show ?thesis using assms
      by (auto simp: secondMaximaCondition_def fn_end_def std_next_def safeNext_def
          deref_def Let_def nth_erase)
  qed
qed

lemma isLocalMaxima_ignore:
  assumes "i < length (func fm)" "g < length (func fm)" "i \<noteq> g"
  shows "isLocalMaxima fm (Some i) (Some g) =
     is_local_maximum (take g (func fm) @ drop (Suc g) (func fm)) (if i < g then i else i - 1)"
proof -
  have "(if i < g then i else i - 1) < length (take g (func fm) @ drop (Suc g) (func fm))"
    using assms by auto
  then show ?thesis
    unfolding isLocalMaxima_def firstMaximaCondition_ignore [OF assms]
      secondMaximaCondition_ignore [OF assms] is_local_maximum_def Let_def
    using assms by simp
qed

section \<open>The effect of a guard that is committed\<close>

lemma std_next_localMaxima_update [simp]:
  "std_next (fm\<lparr>localMaxima := mx\<rparr>) it = std_next fm it"
  by (simp add: std_next_def split: option.splits)

lemma std_prev_localMaxima_update [simp]:
  "std_prev (fm\<lparr>localMaxima := mx\<rparr>) it = std_prev fm it"
  by (simp add: std_prev_def)

lemma fn_begin_localMaxima_update [simp]:
  "fn_begin (fm\<lparr>localMaxima := mx\<rparr>) = fn_begin fm"
  by (simp add: fn_begin_def)

lemma fn_end_localMaxima_update [simp]:
  "fn_end (fm\<lparr>localMaxima := mx\<rparr>) = fn_end fm"
  by (simp add: fn_end_def)

lemma deref_localMaxima_update [simp]:
  "deref (fm\<lparr>localMaxima := mx\<rparr>) it = deref fm it"
  by (simp add: deref_def)

lemma safePrev_localMaxima_update [simp]:
  "safePrev (fm\<lparr>localMaxima := mx\<rparr>) it = safePrev fm it"
  by (simp add: safePrev_def)

lemma safeNext_localMaxima_update [simp]:
  "safeNext (fm\<lparr>localMaxima := mx\<rparr>) it = safeNext fm it"
  by (simp add: safeNext_def)

lemma safePrevWithAvoid_localMaxima_update [simp]:
  "safePrevWithAvoid (fm\<lparr>localMaxima := mx\<rparr>) it ig = safePrevWithAvoid fm it ig"
  by (simp add: safePrevWithAvoid_def Let_def)

lemma safeNextWithAvoid_localMaxima_update [simp]:
  "safeNextWithAvoid (fm\<lparr>localMaxima := mx\<rparr>) it ig = safeNextWithAvoid fm it ig"
  by (simp add: safeNextWithAvoid_def Let_def)

lemma isLocalMaxima_localMaxima_update [simp]:
  "isLocalMaxima (fm\<lparr>localMaxima := mx\<rparr>) it ig = isLocalMaxima fm it ig"
  by (simp add: isLocalMaxima_def firstMaximaCondition_def secondMaximaCondition_def Let_def)

lemma guard_ctor_commit:
  assumes "guard_ctor F pos it ig fm = Inr (g, fm')"
  shows "\<exists>mx'. fm' = fm\<lparr>localMaxima := mx'\<rparr> \<and>
           (sorted_wrt maxima_order (localMaxima fm) \<longrightarrow> sorted_wrt maxima_order mx') \<and>
           set mx' =
             (if it \<noteq> ig \<and> it \<noteq> None \<and> isLocalMaxima fm it ig
              then insert (deref fm it) (set (localMaxima fm)) else set (localMaxima fm))"
    and "guard_dtor (guard_done g) X =
           (if it \<noteq> ig \<and> it \<noteq> None \<and> \<not> isLocalMaxima fm it ig \<and> deref fm it \<in> set (localMaxima fm)
            then X\<lparr>localMaxima := remove1 (deref fm it) (localMaxima X)\<rparr> else X)"
proof -
  show "\<exists>mx'. fm' = fm\<lparr>localMaxima := mx'\<rparr> \<and>
           (sorted_wrt maxima_order (localMaxima fm) \<longrightarrow> sorted_wrt maxima_order mx') \<and>
           set mx' =
             (if it \<noteq> ig \<and> it \<noteq> None \<and> isLocalMaxima fm it ig
              then insert (deref fm it) (set (localMaxima fm)) else set (localMaxima fm))"
  proof (cases "it \<noteq> ig \<and> it \<noteq> None \<and> isLocalMaxima fm it ig \<and> deref fm it \<notin> set (localMaxima fm)")
    case True
    with assms have "fm' = fm\<lparr>localMaxima := set_insert (deref fm it) (localMaxima fm)\<rparr>"
      by (auto simp: guard_ctor_def Let_def mxFind_neq_end deref_def split: if_splits)
    with True show ?thesis
      by (intro exI [of _ "set_insert (deref fm it) (localMaxima fm)"])
        (simp add: sorted_set_insert)
  next
    case False
    with assms have "fm' = fm"
      by (cases it) (auto simp: guard_ctor_def Let_def mxFind_neq_end deref_def split: if_splits)
    with False show ?thesis
      by (intro exI [of _ "localMaxima fm"]) auto
  qed
  show "guard_dtor (guard_done g) X =
           (if it \<noteq> ig \<and> it \<noteq> None \<and> \<not> isLocalMaxima fm it ig \<and> deref fm it \<in> set (localMaxima fm)
            then X\<lparr>localMaxima := remove1 (deref fm it) (localMaxima X)\<rparr> else X)"
    using assms
    by (cases it)
      (auto simp: guard_ctor_def guard_dtor_def guard_done_def guard_init_def Let_def
        mxFind_neq_end mxFind_eq deref_def set_erase_def fn_end_def mx_end_def split: if_splits)
qed

lemma set_guard_dtor_done:
  assumes "guard_ctor F pos it ig fm = Inr (g, fm')"
    and "sorted_wrt maxima_order (localMaxima X)"
  shows "func (guard_dtor (guard_done g) X) = func X"
    and "sorted_wrt maxima_order (localMaxima (guard_dtor (guard_done g) X))"
    and "set (localMaxima (guard_dtor (guard_done g) X)) =
           (if it \<noteq> ig \<and> it \<noteq> None \<and> \<not> isLocalMaxima fm it ig \<and> deref fm it \<in> set (localMaxima fm)
            then set (localMaxima X) - {deref fm it} else set (localMaxima X))"
  using assms(2) sorted_maxima_distinct [OF assms(2)]
  unfolding guard_ctor_commit(2) [OF assms(1)]
  by (simp_all add: sorted_remove1)

lemma set_value_guards_commit:
  assumes ok: "set_value_guards F fnIt ig fm = (None, fm')"
    and sorted: "sorted_wrt maxima_order (localMaxima fm)"
  shows "func fm' = func fm"
    and "sorted_wrt maxima_order (localMaxima fm')"
    and "\<exists>S1 S2 S3.
           S1 = (if safeNextWithAvoid fm fnIt ig \<noteq> ig \<and> safeNextWithAvoid fm fnIt ig \<noteq> None \<and>
                    isLocalMaxima fm (safeNextWithAvoid fm fnIt ig) ig
                 then insert (deref fm (safeNextWithAvoid fm fnIt ig)) (set (localMaxima fm))
                 else set (localMaxima fm)) \<and>
           S2 = (if fnIt \<noteq> ig \<and> fnIt \<noteq> None \<and> isLocalMaxima fm fnIt ig
                 then insert (deref fm fnIt) S1 else S1) \<and>
           S3 = (if safePrevWithAvoid fm fnIt ig \<noteq> ig \<and> safePrevWithAvoid fm fnIt ig \<noteq> None \<and>
                    isLocalMaxima fm (safePrevWithAvoid fm fnIt ig) ig
                 then insert (deref fm (safePrevWithAvoid fm fnIt ig)) S2 else S2) \<and>
           set (localMaxima fm') =
             ((S3 -
               (if safePrevWithAvoid fm fnIt ig \<noteq> ig \<and> safePrevWithAvoid fm fnIt ig \<noteq> None \<and>
                   \<not> isLocalMaxima fm (safePrevWithAvoid fm fnIt ig) ig \<and>
                   deref fm (safePrevWithAvoid fm fnIt ig) \<in> S2
                then {deref fm (safePrevWithAvoid fm fnIt ig)} else {})) -
               (if fnIt \<noteq> ig \<and> fnIt \<noteq> None \<and> \<not> isLocalMaxima fm fnIt ig \<and> deref fm fnIt \<in> S1
                then {deref fm fnIt} else {})) -
               (if safeNextWithAvoid fm fnIt ig \<noteq> ig \<and> safeNextWithAvoid fm fnIt ig \<noteq> None \<and>
                   \<not> isLocalMaxima fm (safeNextWithAvoid fm fnIt ig) ig \<and>
                   deref fm (safeNextWithAvoid fm fnIt ig) \<in> set (localMaxima fm)
                then {deref fm (safeNextWithAvoid fm fnIt ig)} else {})"
proof -
  let ?tn = "safeNextWithAvoid fm fnIt ig" and ?tp = "safePrevWithAvoid fm fnIt ig"
  from ok obtain g1 fm1 g2 fm2 g3 fm3 where
    c1: "guard_ctor F NextElement ?tn ig fm = Inr (g1, fm1)" and
    c2: "guard_ctor F CurrElement fnIt ig fm1 = Inr (g2, fm2)" and
    c3: "guard_ctor F PrevElement (safePrevWithAvoid fm2 fnIt ig) ig fm2 = Inr (g3, fm3)" and
    fm': "fm' = guard_dtor (guard_done g1) (guard_dtor (guard_done g2) (guard_dtor (guard_done g3) fm3))"
    by (auto simp: set_value_guards_def split: sum.splits prod.splits)
  from guard_ctor_commit(1) [OF c1] sorted obtain mx1 where
    fm1: "fm1 = fm\<lparr>localMaxima := mx1\<rparr>" and s1: "sorted_wrt maxima_order mx1" and
    set1: "set mx1 = (if ?tn \<noteq> ig \<and> ?tn \<noteq> None \<and> isLocalMaxima fm ?tn ig
              then insert (deref fm ?tn) (set (localMaxima fm)) else set (localMaxima fm))"
    by blast
  from guard_ctor_commit(1) [OF c2] s1 obtain mx2 where
    fm2: "fm2 = fm\<lparr>localMaxima := mx2\<rparr>" and s2: "sorted_wrt maxima_order mx2" and
    set2: "set mx2 = (if fnIt \<noteq> ig \<and> fnIt \<noteq> None \<and> isLocalMaxima fm fnIt ig
              then insert (deref fm fnIt) (set mx1) else set mx1)"
    unfolding fm1 by auto
  from guard_ctor_commit(1) [OF c3] s2 obtain mx3 where
    fm3: "fm3 = fm\<lparr>localMaxima := mx3\<rparr>" and s3: "sorted_wrt maxima_order mx3" and
    set3: "set mx3 = (if ?tp \<noteq> ig \<and> ?tp \<noteq> None \<and> isLocalMaxima fm ?tp ig
              then insert (deref fm ?tp) (set mx2) else set mx2)"
    unfolding fm2 by auto
  let ?X3 = "guard_dtor (guard_done g3) fm3"
  let ?X2 = "guard_dtor (guard_done g2) ?X3"
  have s3': "sorted_wrt maxima_order (localMaxima fm3)" using s3 fm3 by simp
  note d3 = set_guard_dtor_done [OF c3 s3']
  note d2 = set_guard_dtor_done [OF c2 d3(2)]
  note d1 = set_guard_dtor_done [OF c1 d2(2)]
  show "func fm' = func fm"
    unfolding fm' d1(1) d2(1) d3(1) by (simp add: fm3)
  show "sorted_wrt maxima_order (localMaxima fm')"
    unfolding fm' by (rule d1(2))
  show "\<exists>S1 S2 S3.
           S1 = (if ?tn \<noteq> ig \<and> ?tn \<noteq> None \<and> isLocalMaxima fm ?tn ig
                 then insert (deref fm ?tn) (set (localMaxima fm))
                 else set (localMaxima fm)) \<and>
           S2 = (if fnIt \<noteq> ig \<and> fnIt \<noteq> None \<and> isLocalMaxima fm fnIt ig
                 then insert (deref fm fnIt) S1 else S1) \<and>
           S3 = (if ?tp \<noteq> ig \<and> ?tp \<noteq> None \<and> isLocalMaxima fm ?tp ig
                 then insert (deref fm ?tp) S2 else S2) \<and>
           set (localMaxima fm') =
             ((S3 -
               (if ?tp \<noteq> ig \<and> ?tp \<noteq> None \<and> \<not> isLocalMaxima fm ?tp ig \<and> deref fm ?tp \<in> S2
                then {deref fm ?tp} else {})) -
               (if fnIt \<noteq> ig \<and> fnIt \<noteq> None \<and> \<not> isLocalMaxima fm fnIt ig \<and> deref fm fnIt \<in> S1
                then {deref fm fnIt} else {})) -
               (if ?tn \<noteq> ig \<and> ?tn \<noteq> None \<and> \<not> isLocalMaxima fm ?tn ig \<and>
                   deref fm ?tn \<in> set (localMaxima fm)
                then {deref fm ?tn} else {})"
    apply (rule exI [of _ "set mx1"], rule exI [of _ "set mx2"], rule exI [of _ "set mx3"])
    apply (intro conjI)
       apply (rule set1)
      apply (rule set2)
     apply (rule set3)
    unfolding fm' d1(3) d2(3) d3(3)
    apply (simp add: fm1 fm2 fm3)
    done
qed

section \<open>Lookup and insertion in a function with unique arguments\<close>

lemma unique_arguments_nth_less:
  "unique_arguments fn \<Longrightarrow> i < j \<Longrightarrow> j < length fn \<Longrightarrow> arg (fn ! i) < arg (fn ! j)"
  by (simp add: unique_arguments_def sorted_wrt_iff_nth_less)

lemma unique_arguments_distinct: "unique_arguments fn \<Longrightarrow> distinct fn"
  unfolding unique_arguments_def
  by (induction fn) auto

lemma unique_arguments_arg_inj:
  "unique_arguments fn \<Longrightarrow> i < length fn \<Longrightarrow> j < length fn \<Longrightarrow>
   arg (fn ! i) = arg (fn ! j) \<Longrightarrow> i = j"
  using unique_arguments_nth_less [of fn i j] unique_arguments_nth_less [of fn j i]
  by (cases i j rule: linorder_cases) auto

lemma lower_bound_index:
  assumes "unique_arguments fn" "o' < length fn" "arg (fn ! o') = a"
  shows "takeWhile (\<lambda>p. arg p < a) fn = take o' fn"
  by (rule takeWhile_eq_take_P_nth)
    (use assms unique_arguments_nth_less [of fn _ o'] in auto)

lemma upper_bound_index:
  assumes "unique_arguments fn" "o' < length fn" "arg (fn ! o') = a"
  shows "takeWhile (\<lambda>p. \<not> a < arg p) fn = take (Suc o') fn"
proof (rule takeWhile_eq_take_P_nth)
  fix i assume "i < Suc o'" "i < length fn"
  then show "\<not> a < arg (fn ! i)"
    using assms unique_arguments_nth_less [of fn i o'] by (cases "i = o'") auto
next
  assume "Suc o' < length fn"
  then show "\<not> \<not> a < arg (fn ! Suc o')"
    using assms unique_arguments_nth_less [of fn o' "Suc o'"] by auto
qed

lemma find_impl_Some_iff:
  assumes "unique_arguments (func fm)"
  shows "find_impl fm a = Some i \<longleftrightarrow> i < length (func fm) \<and> arg (func fm ! i) = a"
proof
  assume "find_impl fm a = Some i"
  then have i: "i = length (takeWhile (\<lambda>p. arg p < a) (func fm))" "i < length (func fm)"
    "\<not> a < arg (func fm ! i)"
    by (auto simp: find_impl_def Let_def split: if_splits)
  from nth_length_takeWhile [of "\<lambda>p. arg p < a" "func fm"] i
  have "\<not> arg (func fm ! i) < a" by simp
  with i show "i < length (func fm) \<and> arg (func fm ! i) = a" by auto
next
  assume "i < length (func fm) \<and> arg (func fm ! i) = a"
  then show "find_impl fm a = Some i"
    using lower_bound_index [OF assms, of i a]
    by (simp add: find_impl_def Let_def)
qed

lemma find_impl_None_iff:
  assumes "unique_arguments (func fm)"
  shows "find_impl fm a = None \<longleftrightarrow> a \<notin> arg ` set (func fm)"
proof
  assume "find_impl fm a = None"
  show "a \<notin> arg ` set (func fm)"
  proof
    assume "a \<in> arg ` set (func fm)"
    then obtain i where "i < length (func fm)" "arg (func fm ! i) = a"
      by (auto simp: in_set_conv_nth)
    then have "find_impl fm a = Some i" using find_impl_Some_iff [OF assms] by blast
    with \<open>find_impl fm a = None\<close> show False by simp
  qed
next
  assume absent: "a \<notin> arg ` set (func fm)"
  show "find_impl fm a = None"
  proof (cases "find_impl fm a")
    case (Some i)
    then have "i < length (func fm)" "arg (func fm ! i) = a"
      using find_impl_Some_iff [OF assms] by blast+
    then have "a \<in> arg ` set (func fm)" by (metis imageI nth_mem)
    with absent show ?thesis by simp
  qed simp
qed

text \<open>Where a new argument goes: all arguments before are smaller, all behind greater.\<close>

lemma insert_absent:
  assumes "unique_arguments fn" "a \<notin> arg ` set fn"
    and k_def: "k = length (takeWhile (\<lambda>q. \<not> ComparePointsByArguments (point_type a v) q) fn)"
  shows "k \<le> length fn"
    and "\<forall>i<k. arg (fn ! i) < a"
    and "\<forall>i. k \<le> i \<and> i < length fn \<longrightarrow> a < arg (fn ! i)"
    and "unique_arguments (take k fn @ point_type a v # drop k fn)"
proof -
  let ?P = "\<lambda>q. \<not> ComparePointsByArguments (point_type a v) q"
  show k: "k \<le> length fn" by (simp add: k_def length_takeWhile_le)
  have P: "?P q \<longleftrightarrow> arg q < a" if "q \<in> set fn" for q
    using that assms(2) by (auto simp: ComparePointsByArguments_def)
  show before: "\<forall>i<k. arg (fn ! i) < a"
  proof (intro allI impI)
    fix i assume "i < k"
    then have "takeWhile ?P fn ! i \<in> set (takeWhile ?P fn)" unfolding k_def by simp
    then have "?P (takeWhile ?P fn ! i)" by (rule set_takeWhileD [THEN conjunct2])
    moreover have "takeWhile ?P fn ! i = fn ! i" using \<open>i < k\<close> unfolding k_def
      by (rule takeWhile_nth)
    ultimately show "arg (fn ! i) < a" using P [of "fn ! i"] \<open>i < k\<close> k by simp
  qed
  show behind: "\<forall>i. k \<le> i \<and> i < length fn \<longrightarrow> a < arg (fn ! i)"
  proof (intro allI impI)
    fix i assume i: "k \<le> i \<and> i < length fn"
    then have "k < length fn" by simp
    then have "\<not> ?P (fn ! k)" unfolding k_def by (rule nth_length_takeWhile)
    then have "a < arg (fn ! k)" by (simp add: ComparePointsByArguments_def)
    then show "a < arg (fn ! i)"
      using i unique_arguments_nth_less [OF assms(1), of k i] by (cases "i = k") auto
  qed
  have "\<forall>p\<in>set (take k fn). arg p < a"
    using before k by (auto simp: in_set_conv_nth)
  moreover have "\<forall>p\<in>set (drop k fn). a < arg p"
    using behind k by (auto simp: in_set_conv_nth)
  moreover have "unique_arguments (take k fn @ drop k fn)" using assms(1) by simp
  ultimately show "unique_arguments (take k fn @ point_type a v # drop k fn)"
    unfolding unique_arguments_def sorted_wrt_append sorted_wrt.simps
    by (auto intro: less_trans)
qed

section \<open>Rescanning after one point has been replaced\<close>

lemma three_guards_membership:
  assumes S1: "S1 = (if vn \<and> Ln then insert pn S0 else S0)"
    and S2: "S2 = (if vc \<and> Lc then insert pc S1 else S1)"
    and S3: "S3 = (if vp \<and> Lp then insert pp S2 else S2)"
    and M: "M = S3 - (if vp \<and> \<not> Lp \<and> pp \<in> S2 then {pp} else {})
                 - (if vc \<and> \<not> Lc \<and> pc \<in> S1 then {pc} else {})
                 - (if vn \<and> \<not> Ln \<and> pn \<in> S0 then {pn} else {})"
    and d: "vn \<and> vc \<longrightarrow> pn \<noteq> pc" "vp \<and> vc \<longrightarrow> pp \<noteq> pc" "vn \<and> vp \<longrightarrow> pn \<noteq> pp"
  shows "q \<in> M \<longleftrightarrow>
     (if vn \<and> q = pn then Ln else if vc \<and> q = pc then Lc else if vp \<and> q = pp then Lp
      else q \<in> S0)"
  unfolding M S3 S2 S1 using d by (auto split: if_splits)

lemma rescan_subset: "rescan fn \<subseteq> set fn"
  by (auto simp: rescan_def is_local_maximum_def)

lemma nth_in_rescan_iff:
  "distinct fn \<Longrightarrow> j < length fn \<Longrightarrow> fn ! j \<in> rescan fn \<longleftrightarrow> is_local_maximum fn j"
  by (auto simp: rescan_def is_local_maximum_def nth_eq_iff_index_eq)

lemma distinct_nth_neq:
  "distinct xs \<Longrightarrow> i < length xs \<Longrightarrow> j < length xs \<Longrightarrow> i \<noteq> j \<Longrightarrow> xs ! i \<noteq> xs ! j"
  by (simp add: nth_eq_iff_index_eq)

lemma is_local_maximum_update_far:
  "i + 1 < k \<or> k + 1 < i \<Longrightarrow> is_local_maximum (fn[k := p]) i = is_local_maximum fn i"
  by (auto simp: is_local_maximum_def nth_list_update)

lemma rescan_replace:
  assumes k: "k < length fn" and d: "distinct (fn[k := p])" and old: "fn ! k \<notin> set (fn[k := p])"
    and M: "\<And>q. q \<in> M \<longleftrightarrow> q \<noteq> fn ! k \<and>
              (if Suc k < length fn \<and> q = fn ! Suc k then is_local_maximum (fn[k := p]) (Suc k)
               else if q = p then is_local_maximum (fn[k := p]) k
               else if 0 < k \<and> q = fn ! (k - 1) then is_local_maximum (fn[k := p]) (k - 1)
               else q \<in> rescan fn)"
  shows "M = rescan (fn[k := p])"
proof (intro set_eqI)
  fix q
  let ?fn' = "fn[k := p]"
  have len: "length ?fn' = length fn" by simp
  have nk: "?fn' ! k = p" using k by simp
  have nn: "Suc k < length fn \<Longrightarrow> ?fn' ! Suc k = fn ! Suc k" by simp
  have np: "0 < k \<Longrightarrow> ?fn' ! (k - 1) = fn ! (k - 1)" by simp
  have old': "q \<in> set ?fn' \<Longrightarrow> q \<noteq> fn ! k" for q using old by auto
  have ar: "k - 1 < length fn" "k - 1 \<noteq> Suc k" "0 < k \<Longrightarrow> k - 1 \<noteq> k"
    using k by linarith+
  consider (n) "Suc k < length fn" "q = fn ! Suc k" | (c) "q = p"
    | (p) "0 < k" "q = fn ! (k - 1)" | (o) "q = fn ! k"
    | (f) "\<not> (Suc k < length fn \<and> q = fn ! Suc k)" "q \<noteq> p" "\<not> (0 < k \<and> q = fn ! (k - 1))" "q \<noteq> fn ! k"
    by blast
  then show "q \<in> M \<longleftrightarrow> q \<in> rescan ?fn'"
  proof cases
    case n
    then have "q = ?fn' ! Suc k" by simp
    moreover from this n have "q \<noteq> fn ! k" by (intro old') (metis len nth_mem)
    ultimately show ?thesis
      using n nth_in_rescan_iff [OF d, of "Suc k"] by (auto simp: M)
  next
    case c
    then have q: "q = ?fn' ! k" using nk by simp
    then have "q \<noteq> fn ! k" using k by (intro old') (metis len nth_mem)
    moreover have "\<not> (Suc k < length fn \<and> q = fn ! Suc k)"
    proof
      assume a: "Suc k < length fn \<and> q = fn ! Suc k"
      then have "?fn' ! k \<noteq> ?fn' ! Suc k"
        using k distinct_nth_neq [OF d, of k "Suc k"] by simp
      with a q nn show False by simp
    qed
    ultimately show ?thesis
      using c nth_in_rescan_iff [OF d, of k] k nk by (auto simp: M)
  next
    case p
    then have q: "q = ?fn' ! (k - 1)" by simp
    then have "q \<noteq> fn ! k" using k by (intro old') (metis len less_imp_diff_less nth_mem)
    moreover have "\<not> (Suc k < length fn \<and> q = fn ! Suc k)"
    proof
      assume a: "Suc k < length fn \<and> q = fn ! Suc k"
      then have "?fn' ! (k - 1) \<noteq> ?fn' ! Suc k"
        using k ar distinct_nth_neq [OF d, of "k - 1" "Suc k"] by simp
      with a q nn show False by simp
    qed
    moreover have "q \<noteq> p"
    proof
      assume a: "q = p"
      have "?fn' ! (k - 1) \<noteq> ?fn' ! k"
        using k p(1) ar distinct_nth_neq [OF d, of "k - 1" k] by simp
      with a q nk show False by simp
    qed
    ultimately show ?thesis
      using p nth_in_rescan_iff [OF d, of "k - 1"] k q by (auto simp: M)
  next
    case o
    then have "q \<notin> rescan ?fn'" using old rescan_subset [of ?fn'] by auto
    with o show ?thesis by (simp add: M)
  next
    case f
    have "q \<in> rescan fn \<longleftrightarrow> q \<in> rescan ?fn'"
    proof
      assume "q \<in> rescan fn"
      then obtain i where i: "q = fn ! i" "is_local_maximum fn i" by (auto simp: rescan_def)
      then have "i < length fn" by (simp add: is_local_maximum_def)
      with f i have far: "i + 1 < k \<or> k + 1 < i"
        by (metis Suc_eq_plus1 diff_Suc_1 less_Suc_eq linorder_neqE_nat not_less_eq zero_less_Suc)
      then have "is_local_maximum ?fn' i" "?fn' ! i = q"
        using i is_local_maximum_update_far [OF far] by auto
      then show "q \<in> rescan ?fn'" by (auto simp: rescan_def)
    next
      assume "q \<in> rescan ?fn'"
      then obtain i where i: "q = ?fn' ! i" "is_local_maximum ?fn' i" by (auto simp: rescan_def)
      then have il: "i < length fn" by (simp add: is_local_maximum_def)
      have "i \<noteq> k" using i f nk by auto
      moreover have "i \<noteq> Suc k" using i f il by auto
      moreover have "Suc i \<noteq> k" using i f il by auto
      ultimately have far: "i + 1 < k \<or> k + 1 < i" by linarith
      then have "is_local_maximum fn i" "fn ! i = q"
        using i is_local_maximum_update_far [OF far] by auto
      then show "q \<in> rescan fn" by (auto simp: rescan_def)
    qed
    with f show ?thesis by (auto simp: M)
  qed
qed

lemma set_value_guards_member:
  assumes ok: "set_value_guards F fnIt ig fm = (None, fm')"
    and sorted: "sorted_wrt maxima_order (localMaxima fm)"
    and tn: "tn = safeNextWithAvoid fm fnIt ig" and tp: "tp = safePrevWithAvoid fm fnIt ig"
    and d: "(tn \<noteq> ig \<and> tn \<noteq> None) \<and> (fnIt \<noteq> ig \<and> fnIt \<noteq> None) \<longrightarrow> deref fm tn \<noteq> deref fm fnIt"
      "(tp \<noteq> ig \<and> tp \<noteq> None) \<and> (fnIt \<noteq> ig \<and> fnIt \<noteq> None) \<longrightarrow> deref fm tp \<noteq> deref fm fnIt"
      "(tn \<noteq> ig \<and> tn \<noteq> None) \<and> (tp \<noteq> ig \<and> tp \<noteq> None) \<longrightarrow> deref fm tn \<noteq> deref fm tp"
  shows "q \<in> set (localMaxima fm') \<longleftrightarrow>
     (if (tn \<noteq> ig \<and> tn \<noteq> None) \<and> q = deref fm tn then isLocalMaxima fm tn ig
      else if (fnIt \<noteq> ig \<and> fnIt \<noteq> None) \<and> q = deref fm fnIt then isLocalMaxima fm fnIt ig
      else if (tp \<noteq> ig \<and> tp \<noteq> None) \<and> q = deref fm tp then isLocalMaxima fm tp ig
      else q \<in> set (localMaxima fm))"
proof -
  from set_value_guards_commit(3) [OF ok sorted] obtain S1 S2 S3 where
    S1: "S1 = (if (tn \<noteq> ig \<and> tn \<noteq> None) \<and> isLocalMaxima fm tn ig
                 then insert (deref fm tn) (set (localMaxima fm)) else set (localMaxima fm))" and
    S2: "S2 = (if (fnIt \<noteq> ig \<and> fnIt \<noteq> None) \<and> isLocalMaxima fm fnIt ig
                 then insert (deref fm fnIt) S1 else S1)" and
    S3: "S3 = (if (tp \<noteq> ig \<and> tp \<noteq> None) \<and> isLocalMaxima fm tp ig
                 then insert (deref fm tp) S2 else S2)" and
    M: "set (localMaxima fm') =
             S3 - (if (tp \<noteq> ig \<and> tp \<noteq> None) \<and> \<not> isLocalMaxima fm tp ig \<and> deref fm tp \<in> S2
                then {deref fm tp} else {})
                - (if (fnIt \<noteq> ig \<and> fnIt \<noteq> None) \<and> \<not> isLocalMaxima fm fnIt ig \<and> deref fm fnIt \<in> S1
                then {deref fm fnIt} else {})
                - (if (tn \<noteq> ig \<and> tn \<noteq> None) \<and> \<not> isLocalMaxima fm tn ig \<and>
                   deref fm tn \<in> set (localMaxima fm)
                then {deref fm tn} else {})"
    unfolding tn tp conj_assoc by blast
  show ?thesis by (rule three_guards_membership [OF S1 S2 S3 M d])
qed

section \<open>Setting the value at an argument already present\<close>

lemma unique_arguments_update:
  assumes "unique_arguments fn" "k < length fn" "arg p = arg (fn ! k)"
  shows "unique_arguments (fn[k := p])"
  using assms unfolding unique_arguments_def sorted_wrt_iff_nth_less
  by (auto simp: nth_list_update)

lemma old_not_in_update:
  assumes "unique_arguments fn" "k < length fn" "arg p = arg (fn ! k)" "p \<noteq> fn ! k"
  shows "fn ! k \<notin> set (fn[k := p])"
proof
  assume "fn ! k \<in> set (fn[k := p])"
  then obtain i where i: "i < length fn" "fn[k := p] ! i = fn ! k"
    by (auto simp: in_set_conv_nth)
  show False
  proof (cases "i = k")
    case True with i assms show False by simp
  next
    case False
    with i have "fn ! i = fn ! k" by simp
    then show False using False unique_arguments_arg_inj [OF assms(1) i(1) assms(2)] by simp
  qed
qed

lemma set_value_present:
  assumes ua: "unique_arguments (func fm)"
    and sorted: "sorted_wrt maxima_order (localMaxima fm)"
    and mx: "set (localMaxima fm) = rescan (func fm)"
    and found: "find_impl fm a = Some k"
    and neq: "val (func fm ! k) \<noteq> v"
    and ok: "set_value F a v fm = (None, fm')"
  shows "func fm' = (func fm)[k := point_type a v]"
    and "sorted_wrt maxima_order (localMaxima fm')"
    and "set (localMaxima fm') = rescan ((func fm)[k := point_type a v])"
proof -
  let ?fn = "func fm" and ?pt = "point_type a v"
  let ?n = "length ?fn"
  let ?tr = "take (Suc k) ?fn @ ?pt # drop (Suc k) ?fn"
  let ?fn' = "?fn[k := ?pt]"
  define fm1 where "fm1 = fm\<lparr>func := ?tr\<rparr>"
  from found have k: "k < ?n" and ak: "arg (?fn ! k) = a"
    using find_impl_Some_iff [OF ua] by auto
  have old_neq: "?fn ! k \<noteq> ?pt" using neq by (metis point_type.sel(2))
  have ins: "function_insert ?pt ?fn = (Suc k, ?tr)"
    using upper_bound_index [OF ua k ak] k
    by (simp add: function_insert_def ComparePointsByArguments_def)
  have it': "iterator_after_insert (Suc k) (Some k) = Some k"
    by (simp add: iterator_after_insert_def)
  from ok obtain fm2 where
    guards: "set_value_guards F (Some (Suc k)) (Some k) fm1 = (None, fm2)" and
    fm': "fm' = mxEraseIfNotEnd (mxFind fm (Some k)) (function_erase (Some k) fm2)"
    using found old_neq unfolding fm1_def
    by (auto simp: set_value_def Let_def ins it' fn_end_def deref_def
        split: if_splits prod.splits option.splits)
  have func1: "func fm1 = ?tr" and mx1: "localMaxima fm1 = localMaxima fm"
    by (simp_all add: fm1_def)
  have sorted1: "sorted_wrt maxima_order (localMaxima fm1)" using sorted mx1 by simp
  note c = set_value_guards_commit [OF guards sorted1]
  have func2: "func fm2 = ?tr" using c(1) func1 by simp
  have erase_tr: "take k ?tr @ drop (Suc k) ?tr = ?fn'"
    using k by (simp add: upd_conv_take_nth_drop take_Suc_conv_app_nth min_def)
  show func': "func fm' = ?fn'"
    using erase_tr
    by (simp add: fm' mxEraseIfNotEnd_def set_erase_def function_erase_def func2
        split: option.splits)
  have ua': "unique_arguments ?fn'" using unique_arguments_update [OF ua k] ak by simp
  have d': "distinct ?fn'" by (rule unique_arguments_distinct [OF ua'])
  have old': "?fn ! k \<notin> set ?fn'"
    using old_not_in_update [OF ua k, of ?pt] ak old_neq by simp
  have lm2: "localMaxima (function_erase (Some k) fm2) = localMaxima fm2"
    by (simp add: function_erase_def)
  show "sorted_wrt maxima_order (localMaxima fm')"
    using c(2) by (simp add: fm' mxEraseIfNotEnd_def set_erase_def lm2 sorted_remove1
        split: option.splits)
  \<comment> \<open>the three positions the guards look at\<close>
  have len1: "length (func fm1) = Suc ?n" using k by (simp add: func1)
  have erase1: "take k (func fm1) @ drop (Suc k) (func fm1) = ?fn'"
    using erase_tr func1 by simp
  define tn where "tn = safeNextWithAvoid fm1 (Some (Suc k)) (Some k)"
  define tp where "tp = safePrevWithAvoid fm1 (Some (Suc k)) (Some k)"
  define pk where "pk = k - 1"
  have pk: "0 < k \<Longrightarrow> Suc pk = k" "pk < ?n" "pk < Suc ?n" "0 < k \<Longrightarrow> pk < k" "pk \<noteq> Suc k"
    "0 < k \<Longrightarrow> pk \<noteq> k"
    using k by (simp_all add: pk_def)
  have tn: "tn = (if Suc k < ?n then Some (Suc (Suc k)) else None)"
    using k len1
    by (auto simp: tn_def safeNextWithAvoid_def safeNext_def std_next_def fn_end_def Let_def)
  have tp: "tp = (if 0 < k then Some pk else None)"
    using k len1
    by (auto simp: tp_def pk_def safePrevWithAvoid_def safePrev_def std_prev_def fn_end_def
        fn_begin_def Let_def)
  have Ln: "isLocalMaxima fm1 (Some (Suc (Suc k))) (Some k) = is_local_maximum ?fn' (Suc k)"
    if "Suc k < ?n"
    using isLocalMaxima_ignore [of "Suc (Suc k)" fm1 k] that k len1 erase1 by simp
  have Lc: "isLocalMaxima fm1 (Some (Suc k)) (Some k) = is_local_maximum ?fn' k"
    using isLocalMaxima_ignore [of "Suc k" fm1 k] k len1 erase1 by simp
  have Lp: "isLocalMaxima fm1 (Some pk) (Some k) = is_local_maximum ?fn' pk"
    if "0 < k"
    using isLocalMaxima_ignore [of pk fm1 k] that k len1 erase1 pk by simp
  have pn: "deref fm1 (Some (Suc (Suc k))) = ?fn ! Suc k" if "Suc k < ?n"
    using that k by (simp add: deref_def func1 nth_append min_def)
  have pc: "deref fm1 (Some (Suc k)) = ?pt"
    using k by (simp add: deref_def func1 nth_append min_def)
  have pp: "deref fm1 (Some pk) = ?fn ! pk" if "0 < k"
    using that k pk by (simp add: deref_def func1 nth_append min_def)
  have nn: "Suc k < ?n \<Longrightarrow> ?fn' ! Suc k = ?fn ! Suc k" by simp
  have np: "0 < k \<Longrightarrow> ?fn' ! pk = ?fn ! pk" using pk by simp
  have nk: "?fn' ! k = ?pt" using k by simp
  have dn: "Suc k < ?n \<Longrightarrow> ?fn ! Suc k \<noteq> ?pt"
    using distinct_nth_neq [OF d', of "Suc k" k] k nn nk by simp
  have dp: "0 < k \<Longrightarrow> ?fn ! pk \<noteq> ?pt"
    using distinct_nth_neq [OF d', of pk k] k np nk pk by simp
  have dnp: "Suc k < ?n \<Longrightarrow> 0 < k \<Longrightarrow> ?fn ! Suc k \<noteq> ?fn ! pk"
    using distinct_nth_neq [OF d', of "Suc k" pk] k nn np pk by simp
  have member2: "q \<in> set (localMaxima fm2) \<longleftrightarrow>
     (if Suc k < ?n \<and> q = ?fn ! Suc k then is_local_maximum ?fn' (Suc k)
      else if q = ?pt then is_local_maximum ?fn' k
      else if 0 < k \<and> q = ?fn ! pk then is_local_maximum ?fn' pk
      else q \<in> rescan ?fn)" for q
  proof -
    have d1: "(tn \<noteq> Some k \<and> tn \<noteq> None) \<and> (Some (Suc k) \<noteq> Some k \<and> Some (Suc k) \<noteq> None)
        \<longrightarrow> deref fm1 tn \<noteq> deref fm1 (Some (Suc k))"
      using dn pn pc by (cases "Suc k < ?n") (simp_all add: tn)
    have d2: "(tp \<noteq> Some k \<and> tp \<noteq> None) \<and> (Some (Suc k) \<noteq> Some k \<and> Some (Suc k) \<noteq> None)
        \<longrightarrow> deref fm1 tp \<noteq> deref fm1 (Some (Suc k))"
      using dp pp pc by (cases "0 < k") (simp_all add: tp)
    have d3: "(tn \<noteq> Some k \<and> tn \<noteq> None) \<and> (tp \<noteq> Some k \<and> tp \<noteq> None)
        \<longrightarrow> deref fm1 tn \<noteq> deref fm1 tp"
      using dnp pn pp by (cases "Suc k < ?n"; cases "0 < k") (simp_all add: tn tp)
    note m = set_value_guards_member [OF guards sorted1 tn_def tp_def d1 d2 d3, of q]
    show ?thesis
    proof (cases "Suc k < ?n")
      case n: True
      then have tn': "tn = Some (Suc (Suc k))" using tn by simp
      show ?thesis
      proof (cases "0 < k")
        case True
        then have tp': "tp = Some pk" using tp by simp
        from m [unfolded tn' tp'] n True pk show ?thesis
          by (simp add: Ln Lc Lp pn pc pp mx mx1 cong: if_cong)
      next
        case False
        then have tp': "tp = None" using tp by simp
        from m [unfolded tn' tp'] n False show ?thesis
          by (simp add: Ln Lc pn pc mx mx1 cong: if_cong)
      qed
    next
      case n: False
      then have tn': "tn = None" using tn by simp
      show ?thesis
      proof (cases "0 < k")
        case True
        then have tp': "tp = Some pk" using tp by simp
        from m [unfolded tn' tp'] n True pk show ?thesis
          by (simp add: Lc Lp pc pp mx mx1 cong: if_cong)
      next
        case False
        then have tp': "tp = None" using tp by simp
        from m [unfolded tn' tp'] n False show ?thesis
          by (simp add: Lc pc mx mx1 cong: if_cong)
      qed
    qed
  qed
  have old_mx2: "?fn ! k \<in> set (localMaxima fm2) \<Longrightarrow> ?fn ! k \<in> set (localMaxima fm)"
  proof -
    assume a: "?fn ! k \<in> set (localMaxima fm2)"
    have "Suc k < ?n \<Longrightarrow> ?fn ! k \<noteq> ?fn ! Suc k"
      using old' nn by (metis length_list_update nth_mem)
    moreover have "0 < k \<Longrightarrow> ?fn ! k \<noteq> ?fn ! pk"
      using old' np pk by (metis length_list_update nth_mem)
    ultimately show ?thesis using a old_neq member2 [of "?fn ! k"] mx
      by (simp split: if_splits)
  qed
  have member': "q \<in> set (localMaxima fm') \<longleftrightarrow> q \<noteq> ?fn ! k \<and> q \<in> set (localMaxima fm2)" for q
    using sorted_maxima_distinct [OF c(2)] old_mx2
    by (auto simp: fm' mxEraseIfNotEnd_def set_erase_def lm2 mxFind_eq mx_end_def
        function_erase_def)
  show "set (localMaxima fm') = rescan ?fn'"
    by (rule rescan_replace [OF k d' old']) (simp add: member' member2 pk_def)
qed

section \<open>Rescanning after a point has been inserted\<close>

lemma nth_insert_at:
  "k \<le> length fn \<Longrightarrow>
   (take k fn @ p # drop k fn) ! i = (if i < k then fn ! i else if i = k then p else fn ! (i - 1))"
  by (auto simp: nth_append min_def nth_Cons')

lemma is_local_maximum_insert_before:
  assumes "k \<le> length fn" "i + 1 < k"
  shows "is_local_maximum (take k fn @ p # drop k fn) i = is_local_maximum fn i"
proof -
  have "i < length fn" "Suc i < k" "i - 1 < k" "i < k" "Suc i \<noteq> Suc (length fn)" "Suc i \<noteq> length fn"
    using assms by linarith+
  then show ?thesis
    using assms by (simp add: is_local_maximum_def nth_insert_at)
qed

lemma is_local_maximum_insert_behind:
  assumes "k \<le> length fn" "k < i"
  shows "is_local_maximum (take k fn @ p # drop k fn) (Suc i) = is_local_maximum fn i"
proof -
  have "\<not> Suc i < k" "Suc i \<noteq> k" "\<not> i < k" "i \<noteq> k" "\<not> Suc (Suc i) < k" "Suc (Suc i) \<noteq> k" "i \<noteq> 0"
    using assms by linarith+
  then show ?thesis
    using assms by (simp add: is_local_maximum_def nth_insert_at)
qed

lemma rescan_insert:
  assumes k: "k \<le> length fn" and d: "distinct (take k fn @ p # drop k fn)"
    and M: "\<And>q. q \<in> M \<longleftrightarrow>
              (if k < length fn \<and> q = fn ! k
               then is_local_maximum (take k fn @ p # drop k fn) (Suc k)
               else if q = p then is_local_maximum (take k fn @ p # drop k fn) k
               else if 0 < k \<and> q = fn ! (k - 1)
               then is_local_maximum (take k fn @ p # drop k fn) (k - 1)
               else q \<in> rescan fn)"
  shows "M = rescan (take k fn @ p # drop k fn)"
proof (intro set_eqI)
  fix q
  let ?fn' = "take k fn @ p # drop k fn"
  define pk where "pk = k - 1"
  have pk: "0 < k \<Longrightarrow> Suc pk = k" "0 < k \<Longrightarrow> pk < k" "pk \<noteq> Suc k" "0 < k \<Longrightarrow> pk \<noteq> k"
    "pk < Suc (length fn)" "0 < k \<Longrightarrow> pk < length fn"
    using k unfolding pk_def by linarith+
  have len: "length ?fn' = Suc (length fn)" using k by simp
  have nk: "?fn' ! k = p" using k by (simp add: nth_insert_at)
  have nn: "?fn' ! Suc k = fn ! k" using k by (simp add: nth_insert_at)
  have np: "0 < k \<Longrightarrow> ?fn' ! pk = fn ! pk" using k pk by (simp add: nth_insert_at)
  have dnc: "k < length fn \<Longrightarrow> fn ! k \<noteq> p"
    using distinct_nth_neq [OF d, of "Suc k" k] nn nk len by simp
  have dpc: "0 < k \<Longrightarrow> fn ! pk \<noteq> p"
    using distinct_nth_neq [OF d, of pk k] np nk len pk k by simp
  have dnp: "k < length fn \<Longrightarrow> 0 < k \<Longrightarrow> fn ! k \<noteq> fn ! pk"
    using distinct_nth_neq [OF d, of "Suc k" pk] nn np len pk by simp
  have M': "q \<in> M \<longleftrightarrow>
              (if k < length fn \<and> q = fn ! k then is_local_maximum ?fn' (Suc k)
               else if q = p then is_local_maximum ?fn' k
               else if 0 < k \<and> q = fn ! pk then is_local_maximum ?fn' pk
               else q \<in> rescan fn)"
    unfolding pk_def by (rule M)
  consider (n) "k < length fn" "q = fn ! k" | (c) "q = p"
    | (p) "0 < k" "q = fn ! pk"
    | (f) "\<not> (k < length fn \<and> q = fn ! k)" "q \<noteq> p" "\<not> (0 < k \<and> q = fn ! pk)"
    by blast
  then show "q \<in> M \<longleftrightarrow> q \<in> rescan ?fn'"
  proof cases
    case n
    then show ?thesis
      using nth_in_rescan_iff [OF d, of "Suc k"] nn len M' by auto
  next
    case c
    then show ?thesis
      using nth_in_rescan_iff [OF d, of k] nk len k dnc M' by auto
  next
    case p
    then show ?thesis
      using nth_in_rescan_iff [OF d, of pk] np len pk dnp dpc M' by auto
  next
    case f
    have "q \<in> rescan fn \<longleftrightarrow> q \<in> rescan ?fn'"
    proof
      assume "q \<in> rescan fn"
      then obtain i where i: "q = fn ! i" "is_local_maximum fn i" by (auto simp: rescan_def)
      then have il: "i < length fn" by (simp add: is_local_maximum_def)
      have "i \<noteq> k" using f i il by auto
      moreover have "0 < k \<Longrightarrow> i \<noteq> pk" using f i by auto
      ultimately consider "i + 1 < k" | "k < i" using pk(1) by (cases "0 < k") (auto, linarith)
      then show "q \<in> rescan ?fn'"
      proof cases
        case 1
        then have "is_local_maximum ?fn' i" "?fn' ! i = q"
          using i is_local_maximum_insert_before [OF k 1] k by (auto simp: nth_insert_at)
        then show ?thesis by (auto simp: rescan_def)
      next
        case 2
        then have "is_local_maximum ?fn' (Suc i)" "?fn' ! Suc i = q"
          using i is_local_maximum_insert_behind [OF k 2] k by (auto simp: nth_insert_at)
        then show ?thesis by (auto simp: rescan_def)
      qed
    next
      assume "q \<in> rescan ?fn'"
      then obtain j where j: "q = ?fn' ! j" "is_local_maximum ?fn' j" by (auto simp: rescan_def)
      then have jl: "j < Suc (length fn)" using len by (simp add: is_local_maximum_def)
      have "j \<noteq> k" using f j nk by auto
      moreover have "j \<noteq> Suc k" using f j jl nn by auto
      moreover have "0 < k \<Longrightarrow> j \<noteq> pk" using f j np by auto
      ultimately consider "j + 1 < k" | "Suc k < j"
        using pk(1) by (cases "0 < k") (auto, linarith)
      then show "q \<in> rescan fn"
      proof cases
        case 1
        then have "is_local_maximum fn j" "fn ! j = q"
          using j is_local_maximum_insert_before [OF k 1] k by (auto simp: nth_insert_at)
        then show ?thesis by (auto simp: rescan_def)
      next
        case 2
        then obtain i where i: "j = Suc i" "k < i" by (cases j) auto
        then have "is_local_maximum fn i" "fn ! i = q"
          using j is_local_maximum_insert_behind [OF k i(2)] k by (auto simp: nth_insert_at)
        then show ?thesis by (auto simp: rescan_def)
      qed
    qed
    with f M' show ?thesis by auto
  qed
qed

section \<open>Setting the value at a new argument\<close>

lemma set_value_absent:
  assumes ua: "unique_arguments (func fm)"
    and sorted: "sorted_wrt maxima_order (localMaxima fm)"
    and mx: "set (localMaxima fm) = rescan (func fm)"
    and absent: "find_impl fm a = None"
    and ok: "set_value F a v fm = (None, fm')"
    and k_def: "k = length (takeWhile (\<lambda>q. \<not> ComparePointsByArguments (point_type a v) q) (func fm))"
  shows "func fm' = take k (func fm) @ point_type a v # drop k (func fm)"
    and "unique_arguments (func fm')"
    and "sorted_wrt maxima_order (localMaxima fm')"
    and "set (localMaxima fm') = rescan (func fm')"
proof -
  let ?fn = "func fm" and ?pt = "point_type a v"
  let ?n = "length ?fn"
  let ?fn' = "take k ?fn @ ?pt # drop k ?fn"
  define fm1 where "fm1 = fm\<lparr>func := ?fn'\<rparr>"
  have notin: "a \<notin> arg ` set ?fn" using absent find_impl_None_iff [OF ua] by simp
  note pos = insert_absent [OF ua notin k_def]
  have k: "k \<le> ?n" by (rule pos(1))
  have ins: "function_insert ?pt ?fn = (k, ?fn')"
    by (simp add: function_insert_def k_def Let_def)
  from ok have guards: "set_value_guards F (Some k) None fm1 = (None, fm')"
    using absent unfolding fm1_def
    by (auto simp: set_value_def Let_def ins fn_end_def iterator_after_insert_def
        split: if_splits prod.splits option.splits)
  have func1: "func fm1 = ?fn'" and mx1: "localMaxima fm1 = localMaxima fm"
    by (simp_all add: fm1_def)
  have sorted1: "sorted_wrt maxima_order (localMaxima fm1)" using sorted mx1 by simp
  note c = set_value_guards_commit [OF guards sorted1]
  show func': "func fm' = ?fn'" using c(1) func1 by simp
  show ua': "unique_arguments (func fm')" using pos(4) func' by simp
  have d': "distinct ?fn'" using unique_arguments_distinct [OF pos(4)] .
  show "sorted_wrt maxima_order (localMaxima fm')" by (rule c(2))
  have len1: "length (func fm1) = Suc ?n" using k by (simp add: func1)
  define tn where "tn = safeNextWithAvoid fm1 (Some k) None"
  define tp where "tp = safePrevWithAvoid fm1 (Some k) None"
  define pk where "pk = k - 1"
  have pk: "0 < k \<Longrightarrow> Suc pk = k" "pk < Suc ?n" "0 < k \<Longrightarrow> pk < k" "pk \<noteq> Suc k"
    "0 < k \<Longrightarrow> pk \<noteq> k" "0 < k \<Longrightarrow> pk < ?n"
    using k unfolding pk_def by linarith+
  have tn: "tn = (if k < ?n then Some (Suc k) else None)"
    using k len1
    by (auto simp: tn_def safeNextWithAvoid_def safeNext_def std_next_def fn_end_def Let_def)
  have tp: "tp = (if 0 < k then Some pk else None)"
    using k len1
    by (auto simp: tp_def pk_def safePrevWithAvoid_def safePrev_def std_prev_def fn_end_def
        fn_begin_def Let_def func1)
  have Ln: "isLocalMaxima fm1 (Some (Suc k)) None = is_local_maximum ?fn' (Suc k)"
    if "k < ?n"
    using isLocalMaxima_no_ignore [of "Suc k" fm1] that len1 func1 by simp
  have Lc: "isLocalMaxima fm1 (Some k) None = is_local_maximum ?fn' k"
    using isLocalMaxima_no_ignore [of k fm1] len1 func1 k by simp
  have Lp: "isLocalMaxima fm1 (Some pk) None = is_local_maximum ?fn' pk"
    using isLocalMaxima_no_ignore [of pk fm1] len1 func1 pk by simp
  have pn: "deref fm1 (Some (Suc k)) = ?fn ! k"
    using k by (simp add: deref_def func1 nth_insert_at)
  have pc: "deref fm1 (Some k) = ?pt"
    using k by (simp add: deref_def func1 nth_insert_at)
  have pp: "deref fm1 (Some pk) = ?fn ! pk" if "0 < k"
    using that k pk by (simp add: deref_def func1 nth_insert_at)
  have len': "length ?fn' = Suc ?n" using k by simp
  have dn: "k < ?n \<Longrightarrow> ?fn ! k \<noteq> ?pt"
    using distinct_nth_neq [OF d', of "Suc k" k] k len' by (simp add: nth_insert_at)
  have dp: "0 < k \<Longrightarrow> ?fn ! pk \<noteq> ?pt"
    using distinct_nth_neq [OF d', of pk k] k len' pk by (simp add: nth_insert_at)
  have dnp: "k < ?n \<Longrightarrow> 0 < k \<Longrightarrow> ?fn ! k \<noteq> ?fn ! pk"
    using distinct_nth_neq [OF d', of "Suc k" pk] k len' pk by (simp add: nth_insert_at)
  have member: "q \<in> set (localMaxima fm') \<longleftrightarrow>
     (if k < ?n \<and> q = ?fn ! k then is_local_maximum ?fn' (Suc k)
      else if q = ?pt then is_local_maximum ?fn' k
      else if 0 < k \<and> q = ?fn ! pk then is_local_maximum ?fn' pk
      else q \<in> rescan ?fn)" for q
  proof -
    have d1: "(tn \<noteq> None \<and> tn \<noteq> None) \<and> (Some k \<noteq> None \<and> Some k \<noteq> None)
        \<longrightarrow> deref fm1 tn \<noteq> deref fm1 (Some k)"
      using dn pn pc by (cases "k < ?n") (simp_all add: tn)
    have d2: "(tp \<noteq> None \<and> tp \<noteq> None) \<and> (Some k \<noteq> None \<and> Some k \<noteq> None)
        \<longrightarrow> deref fm1 tp \<noteq> deref fm1 (Some k)"
      using dp pp pc by (cases "0 < k") (simp_all add: tp)
    have d3: "(tn \<noteq> None \<and> tn \<noteq> None) \<and> (tp \<noteq> None \<and> tp \<noteq> None)
        \<longrightarrow> deref fm1 tn \<noteq> deref fm1 tp"
      using dnp pn pp by (cases "k < ?n"; cases "0 < k") (simp_all add: tn tp)
    note m = set_value_guards_member [OF guards sorted1 tn_def tp_def d1 d2 d3, of q]
    show ?thesis
    proof (cases "k < ?n")
      case n: True
      then have tn': "tn = Some (Suc k)" using tn by simp
      show ?thesis
      proof (cases "0 < k")
        case True
        then have tp': "tp = Some pk" using tp by simp
        from m [unfolded tn' tp'] n True pk show ?thesis
          by (simp add: Ln Lc Lp pn pc pp mx mx1 cong: if_cong)
      next
        case False
        then have tp': "tp = None" using tp by simp
        from m [unfolded tn' tp'] n False show ?thesis
          by (simp add: Ln Lc pn pc mx mx1 cong: if_cong)
      qed
    next
      case n: False
      then have tn': "tn = None" using tn by simp
      show ?thesis
      proof (cases "0 < k")
        case True
        then have tp': "tp = Some pk" using tp by simp
        from m [unfolded tn' tp'] n True pk show ?thesis
          by (simp add: Lc Lp pc pp mx mx1 cong: if_cong)
      next
        case False
        then have tp': "tp = None" using tp by simp
        from m [unfolded tn' tp'] n False show ?thesis
          by (simp add: Lc pc mx mx1 cong: if_cong)
      qed
    qed
  qed
  show "set (localMaxima fm') = rescan (func fm')"
    unfolding func'
    by (rule rescan_insert [OF k d']) (rule member [unfolded pk_def])
qed

section \<open>Rescanning after a point has been erased\<close>

lemma is_local_maximum_erase_before:
  assumes "k < length fn" "i + 1 < k"
  shows "is_local_maximum (take k fn @ drop (Suc k) fn) i = is_local_maximum fn i"
proof -
  have "i < length fn - 1" "Suc i < length fn - 1" "i - 1 < length fn - 1" "i < k" "Suc i < k"
    "i - 1 < k" "Suc i \<noteq> length fn" "Suc i \<noteq> length fn - 1" "i < length fn"
    using assms by linarith+
  then show ?thesis
    using assms by (simp add: is_local_maximum_def nth_erase)
qed

lemma is_local_maximum_erase_behind:
  assumes "k < length fn" "Suc k < i"
  shows "is_local_maximum (take k fn @ drop (Suc k) fn) (i - 1) = is_local_maximum fn i"
proof -
  obtain j where j: "i = Suc j" "k < j" using assms by (cases i) auto
  have "\<not> j < k" "\<not> j - 1 < k" "\<not> Suc j < k" "j \<noteq> 0" "Suc (j - 1) = j"
    "j < length fn - 1 \<longleftrightarrow> Suc j < length fn" "j - 1 < length fn - 1 \<or> \<not> Suc j < length fn"
    "Suc j < length fn - 1 \<longleftrightarrow> Suc (Suc j) < length fn"
    "Suc j = length fn - 1 \<longleftrightarrow> Suc (Suc j) = length fn"
    using j assms by linarith+
  then show ?thesis
    using assms j by (auto simp: is_local_maximum_def nth_erase)
qed

lemma rescan_erase:
  assumes k: "k < length fn" and d: "distinct fn"
    and M: "\<And>q. q \<in> M \<longleftrightarrow> q \<noteq> fn ! k \<and>
              (if Suc k < length fn \<and> q = fn ! Suc k
               then is_local_maximum (take k fn @ drop (Suc k) fn) k
               else if 0 < k \<and> q = fn ! (k - 1)
               then is_local_maximum (take k fn @ drop (Suc k) fn) (k - 1)
               else q \<in> rescan fn)"
  shows "M = rescan (take k fn @ drop (Suc k) fn)"
proof (intro set_eqI)
  fix q
  let ?fn' = "take k fn @ drop (Suc k) fn"
  define pk where "pk = k - 1"
  have pk: "0 < k \<Longrightarrow> Suc pk = k" "0 < k \<Longrightarrow> pk < k" "pk \<noteq> Suc k" "0 < k \<Longrightarrow> pk \<noteq> k"
    "pk < length fn" "0 < k \<Longrightarrow> pk < length fn - 1"
    using k unfolding pk_def by linarith+
  have len: "length ?fn' = length fn - 1" using k by (rule length_erase)
  have "distinct (take k fn @ fn ! k # drop (Suc k) fn)"
    using d id_take_nth_drop [OF k] by simp
  then have d': "distinct ?fn'" by simp
  have nn: "Suc k < length fn \<Longrightarrow> ?fn' ! k = fn ! Suc k" using k by (simp add: nth_erase)
  have np: "0 < k \<Longrightarrow> ?fn' ! pk = fn ! pk" using k pk by (simp add: nth_erase)
  have old: "fn ! k \<notin> set ?fn'"
    using \<open>distinct (take k fn @ fn ! k # drop (Suc k) fn)\<close> by auto
  have dnp: "Suc k < length fn \<Longrightarrow> 0 < k \<Longrightarrow> fn ! Suc k \<noteq> fn ! pk"
    using distinct_nth_neq [OF d, of "Suc k" pk] pk by simp
  have dno: "Suc k < length fn \<Longrightarrow> fn ! Suc k \<noteq> fn ! k"
    using distinct_nth_neq [OF d, of "Suc k" k] by simp
  have dpo: "0 < k \<Longrightarrow> fn ! pk \<noteq> fn ! k"
    using distinct_nth_neq [OF d, of pk k] pk k by simp
  have M': "q \<in> M \<longleftrightarrow> q \<noteq> fn ! k \<and>
              (if Suc k < length fn \<and> q = fn ! Suc k then is_local_maximum ?fn' k
               else if 0 < k \<and> q = fn ! pk then is_local_maximum ?fn' pk
               else q \<in> rescan fn)"
    unfolding pk_def by (rule M)
  consider (n) "Suc k < length fn" "q = fn ! Suc k"
    | (p) "0 < k" "q = fn ! pk" | (o) "q = fn ! k"
    | (f) "\<not> (Suc k < length fn \<and> q = fn ! Suc k)" "\<not> (0 < k \<and> q = fn ! pk)" "q \<noteq> fn ! k"
    by blast
  then show "q \<in> M \<longleftrightarrow> q \<in> rescan ?fn'"
  proof cases
    case n
    then have "k < length ?fn'" using len by simp
    then show ?thesis
      using n nth_in_rescan_iff [OF d', of k] nn dno M' by auto
  next
    case p
    then have "pk < length ?fn'" using len pk by simp
    then show ?thesis
      using p nth_in_rescan_iff [OF d', of pk] np dnp dpo M' by auto
  next
    case o
    then have "q \<notin> rescan ?fn'" using old rescan_subset [of ?fn'] by auto
    with o M' show ?thesis by simp
  next
    case f
    have "q \<in> rescan fn \<longleftrightarrow> q \<in> rescan ?fn'"
    proof
      assume "q \<in> rescan fn"
      then obtain i where i: "q = fn ! i" "is_local_maximum fn i" by (auto simp: rescan_def)
      then have il: "i < length fn" by (simp add: is_local_maximum_def)
      have "i \<noteq> k" using f i by auto
      moreover have "i \<noteq> Suc k" using f i il by auto
      moreover have "0 < k \<Longrightarrow> i \<noteq> pk" using f i by auto
      ultimately consider "i + 1 < k" | "Suc k < i"
        using pk(1) by (cases "0 < k") (auto, linarith)
      then show "q \<in> rescan ?fn'"
      proof cases
        case 1
        then have "is_local_maximum ?fn' i" "?fn' ! i = q"
          using i is_local_maximum_erase_before [OF k 1] k il by (auto simp: nth_erase)
        then show ?thesis by (auto simp: rescan_def)
      next
        case 2
        then obtain j where j: "i = Suc j" "k < j" by (cases i) auto
        then have "is_local_maximum ?fn' j" "?fn' ! j = q"
          using i is_local_maximum_erase_behind [OF k 2] k il by (auto simp: nth_erase)
        then show ?thesis by (auto simp: rescan_def)
      qed
    next
      assume "q \<in> rescan ?fn'"
      then obtain j where j: "q = ?fn' ! j" "is_local_maximum ?fn' j" by (auto simp: rescan_def)
      then have jl: "j < length fn - 1" using len by (simp add: is_local_maximum_def)
      have "j = k \<Longrightarrow> Suc k < length fn" using jl by linarith
      then have "j \<noteq> k" using f j nn by auto
      moreover have "0 < k \<Longrightarrow> j \<noteq> pk" using f j np by auto
      ultimately consider "j + 1 < k" | "k < j"
        using pk(1) by (cases "0 < k") (auto, linarith)
      then show "q \<in> rescan fn"
      proof cases
        case 1
        then have "is_local_maximum fn j" "fn ! j = q"
          using j is_local_maximum_erase_before [OF k 1] k jl by (auto simp: nth_erase)
        then show ?thesis by (auto simp: rescan_def)
      next
        case 2
        then have "is_local_maximum fn (Suc j)" "fn ! Suc j = q"
          using j is_local_maximum_erase_behind [OF k, of "Suc j"] k jl by (auto simp: nth_erase)
        then show ?thesis by (auto simp: rescan_def)
      qed
    qed
    with f M' show ?thesis by auto
  qed
qed

section \<open>Erasing an argument\<close>

lemma erase_absent:
  "find_impl fm a = None \<Longrightarrow> erase F a fm = (None, fm) \<or> (\<exists>e. erase F a fm = (Some e, fm))"
  by (simp add: erase_def fn_end_def)

lemma erase_present:
  assumes ua: "unique_arguments (func fm)"
    and sorted: "sorted_wrt maxima_order (localMaxima fm)"
    and mx: "set (localMaxima fm) = rescan (func fm)"
    and found: "find_impl fm a = Some k"
    and ok: "erase F a fm = (None, fm')"
  shows "func fm' = take k (func fm) @ drop (Suc k) (func fm)"
    and "sorted_wrt maxima_order (localMaxima fm')"
    and "set (localMaxima fm') = rescan (take k (func fm) @ drop (Suc k) (func fm))"
proof -
  let ?fn = "func fm"
  let ?n = "length ?fn"
  let ?fn' = "take k ?fn @ drop (Suc k) ?fn"
  from found have k: "k < ?n" and ak: "arg (?fn ! k) = a"
    using find_impl_Some_iff [OF ua] by auto
  have d: "distinct ?fn" by (rule unique_arguments_distinct [OF ua])
  define tn where "tn = safeNext fm (Some k)"
  define tp where "tp = safePrev fm (Some k)"
  define pk where "pk = k - 1"
  have pk: "0 < k \<Longrightarrow> Suc pk = k" "pk < ?n" "0 < k \<Longrightarrow> pk < k" "pk \<noteq> Suc k"
    "0 < k \<Longrightarrow> pk \<noteq> k"
    using k unfolding pk_def by linarith+
  from ok obtain g1 fm1 g2 fm2 where
    c1: "guard_ctor F NextElement tn (Some k) fm = Inr (g1, fm1)" and
    c2: "guard_ctor F PrevElement (safePrev fm1 (Some k)) (Some k) fm1 = Inr (g2, fm2)" and
    fm': "fm' = guard_dtor (guard_done g1) (guard_dtor (guard_done g2)
             (mxEraseIfNotEnd (mxFind fm (Some k)) (function_erase (Some k) fm2)))"
    using found unfolding tn_def
    by (auto simp: erase_def Let_def fn_end_def split: if_splits sum.splits prod.splits)
  from guard_ctor_commit(1) [OF c1] sorted obtain mx1 where
    fm1: "fm1 = fm\<lparr>localMaxima := mx1\<rparr>" and s1: "sorted_wrt maxima_order mx1" and
    set1: "set mx1 = (if (tn \<noteq> Some k \<and> tn \<noteq> None) \<and> isLocalMaxima fm tn (Some k)
              then insert (deref fm tn) (set (localMaxima fm)) else set (localMaxima fm))"
    unfolding conj_assoc by blast
  have c2': "guard_ctor F PrevElement tp (Some k) fm1 = Inr (g2, fm2)"
    using c2 by (simp add: fm1 tp_def)
  from guard_ctor_commit(1) [OF c2'] s1 obtain mx2 where
    fm2: "fm2 = fm\<lparr>localMaxima := mx2\<rparr>" and s2: "sorted_wrt maxima_order mx2" and
    set2: "set mx2 = (if (tp \<noteq> Some k \<and> tp \<noteq> None) \<and> isLocalMaxima fm tp (Some k)
              then insert (deref fm tp) (set mx1) else set mx1)"
    unfolding fm1 conj_assoc by auto
  define X where "X = mxEraseIfNotEnd (mxFind fm (Some k)) (function_erase (Some k) fm2)"
  have funcX: "func X = ?fn'"
    by (simp add: X_def mxEraseIfNotEnd_def set_erase_def function_erase_def fm2
        split: option.splits)
  have mxX: "localMaxima X = (if ?fn ! k \<in> set (localMaxima fm) then remove1 (?fn ! k) mx2 else mx2)"
    by (simp add: X_def mxEraseIfNotEnd_def set_erase_def function_erase_def fm2 mxFind_eq
        mx_end_def)
  have sX: "sorted_wrt maxima_order (localMaxima X)"
    using s2 by (simp add: mxX sorted_remove1)
  note d2 = set_guard_dtor_done [OF c2' sX]
  note d1 = set_guard_dtor_done [OF c1 d2(2)]
  show func': "func fm' = ?fn'"
    unfolding fm' X_def [symmetric] d1(1) d2(1) by (rule funcX)
  show "sorted_wrt maxima_order (localMaxima fm')"
    unfolding fm' X_def [symmetric] by (rule d1(2))
  have tn: "tn = (if Suc k < ?n then Some (Suc k) else None)"
    by (simp add: tn_def safeNext_def std_next_def fn_end_def)
  have tp: "tp = (if 0 < k then Some pk else None)"
    using k by (auto simp: tp_def pk_def safePrev_def std_prev_def fn_end_def fn_begin_def)
  have Ln: "isLocalMaxima fm (Some (Suc k)) (Some k) = is_local_maximum ?fn' k" if "Suc k < ?n"
    using isLocalMaxima_ignore [of "Suc k" fm k] that k by simp
  have Lp: "isLocalMaxima fm (Some pk) (Some k) = is_local_maximum ?fn' pk" if "0 < k"
    using isLocalMaxima_ignore [of pk fm k] that k pk by simp
  have pn: "deref fm (Some (Suc k)) = ?fn ! Suc k" by (simp add: deref_def)
  have pp: "deref fm (Some pk) = ?fn ! pk" by (simp add: deref_def)
  have dnp: "Suc k < ?n \<Longrightarrow> 0 < k \<Longrightarrow> ?fn ! Suc k \<noteq> ?fn ! pk"
    using distinct_nth_neq [OF d, of "Suc k" pk] pk by simp
  have dno: "Suc k < ?n \<Longrightarrow> ?fn ! Suc k \<noteq> ?fn ! k"
    using distinct_nth_neq [OF d, of "Suc k" k] by simp
  have dpo: "0 < k \<Longrightarrow> ?fn ! pk \<noteq> ?fn ! k"
    using distinct_nth_neq [OF d, of pk k] pk k by simp
  define M0 where "M0 = set mx2
       - (if (tp \<noteq> Some k \<and> tp \<noteq> None) \<and> \<not> isLocalMaxima fm tp (Some k) \<and> deref fm tp \<in> set mx1
          then {deref fm tp} else {})
       - (if (False \<and> False) \<and> \<not> False \<and> deref fm tp \<in> set mx1 then {deref fm tp} else {})
       - (if (tn \<noteq> Some k \<and> tn \<noteq> None) \<and> \<not> isLocalMaxima fm tn (Some k) \<and>
             deref fm tn \<in> set (localMaxima fm)
          then {deref fm tn} else {})"
  have setX: "set (localMaxima X) = set mx2 - {?fn ! k}"
  proof (cases "?fn ! k \<in> set (localMaxima fm)")
    case True
    then show ?thesis using sorted_maxima_distinct [OF s2] by (simp add: mxX)
  next
    case False
    have "?fn ! k \<notin> set mx2"
      using False dno dpo pn pp unfolding set2 set1
      by (cases "Suc k < ?n"; cases "0 < k") (auto simp: tn tp)
    then show ?thesis by (simp add: mxX False)
  qed
  have final: "set (localMaxima fm') = M0 - {?fn ! k}"
    unfolding fm' X_def [symmetric] d1(3) d2(3) setX M0_def
    by (simp add: fm1) blast
  have m0: "q \<in> M0 \<longleftrightarrow>
     (if (tn \<noteq> Some k \<and> tn \<noteq> None) \<and> q = deref fm tn then isLocalMaxima fm tn (Some k)
      else if (False \<and> False) \<and> q = deref fm tp then False
      else if (tp \<noteq> Some k \<and> tp \<noteq> None) \<and> q = deref fm tp then isLocalMaxima fm tp (Some k)
      else q \<in> set (localMaxima fm))" for q
  proof (rule three_guards_membership [OF set1 _ set2 M0_def])
    show "set mx1 = (if (False \<and> False) \<and> False then insert (deref fm tp) (set mx1) else set mx1)"
      by simp
    show "(tn \<noteq> Some k \<and> tn \<noteq> None) \<and> (tp \<noteq> Some k \<and> tp \<noteq> None) \<longrightarrow> deref fm tn \<noteq> deref fm tp"
      using dnp pn pp by (cases "Suc k < ?n"; cases "0 < k") (simp_all add: tn tp)
  qed simp_all
  have member: "q \<in> set (localMaxima fm') \<longleftrightarrow> q \<noteq> ?fn ! k \<and>
     (if Suc k < ?n \<and> q = ?fn ! Suc k then is_local_maximum ?fn' k
      else if 0 < k \<and> q = ?fn ! pk then is_local_maximum ?fn' pk
      else q \<in> rescan ?fn)" for q
  proof (cases "Suc k < ?n")
    case n: True
    then have tn': "tn = Some (Suc k)" using tn by simp
    show ?thesis
    proof (cases "0 < k")
      case True
      then have tp': "tp = Some pk" using tp by simp
      from m0 [of q, unfolded tn' tp'] n True pk show ?thesis
        unfolding final by (auto simp: Ln Lp pn pp mx cong: if_cong)
    next
      case False
      then have tp': "tp = None" using tp by simp
      from m0 [of q, unfolded tn' tp'] n False show ?thesis
        unfolding final by (auto simp: Ln pn mx cong: if_cong)
    qed
  next
    case n: False
    then have tn': "tn = None" using tn by simp
    show ?thesis
    proof (cases "0 < k")
      case True
      then have tp': "tp = Some pk" using tp by simp
      from m0 [of q, unfolded tn' tp'] n True pk show ?thesis
        unfolding final by (auto simp: Lp pp mx cong: if_cong)
    next
      case False
      then have tp': "tp = None" using tp by simp
      from m0 [of q, unfolded tn' tp'] n False show ?thesis
        unfolding final by (auto simp: mx cong: if_cong)
    qed
  qed
  show "set (localMaxima fm') = rescan ?fn'"
    by (rule rescan_erase [OF k d]) (rule member [unfolded pk_def])
qed

section \<open>The invariant is kept by every call\<close>

lemma unique_arguments_erase:
  assumes "unique_arguments fn" "k < length fn"
  shows "unique_arguments (take k fn @ drop (Suc k) fn)"
proof -
  have "sorted_wrt (\<lambda>p q. arg p < arg q) (take k fn @ fn ! k # drop (Suc k) fn)"
    using assms id_take_nth_drop [OF assms(2)] by (simp add: unique_arguments_def)
  then show ?thesis
    unfolding unique_arguments_def sorted_wrt_append by auto
qed

lemma set_value_same:
  assumes "find_impl fm a = Some k" "func fm ! k = point_type a v"
  shows "snd (set_value F a v fm) = fm"
  using assms by (simp add: set_value_def Let_def fn_end_def deref_def)

lemma set_value_invariant:
  assumes inv: "invariant fm"
  shows "invariant (snd (set_value F a v fm))"
proof (cases "set_value F a v fm")
  case (Pair r fm')
  from inv have ua: "unique_arguments (func fm)"
    and sorted: "sorted_wrt maxima_order (localMaxima fm)"
    and mx: "set (localMaxima fm) = rescan (func fm)"
    by (simp_all add: invariant_def)
  show ?thesis
  proof (cases r)
    case (Some e)
    with Pair set_value_rollback [of F a v fm e fm'] inv show ?thesis by simp
  next
    case None
    with Pair have ok: "set_value F a v fm = (None, fm')" by simp
    show ?thesis
    proof (cases "find_impl fm a")
      case absent: None
      from set_value_absent [OF ua sorted mx absent ok refl] show ?thesis
        by (simp add: Pair invariant_def)
    next
      case (Some k)
      then have k: "k < length (func fm)" "arg (func fm ! k) = a"
        using find_impl_Some_iff [OF ua] by auto
      show ?thesis
      proof (cases "val (func fm ! k) = v")
        case True
        with k have "func fm ! k = point_type a v" by (simp add: point_type.expand)
        from set_value_same [OF Some this, of F] inv show ?thesis by simp
      next
        case False
        from set_value_present [OF ua sorted mx Some False ok]
          unique_arguments_update [OF ua k(1), of "point_type a v"] k(2)
        show ?thesis by (simp add: Pair invariant_def)
      qed
    qed
  qed
qed

lemma erase_invariant:
  assumes inv: "invariant fm"
  shows "invariant (snd (erase F a fm))"
proof (cases "erase F a fm")
  case (Pair r fm')
  from inv have ua: "unique_arguments (func fm)"
    and sorted: "sorted_wrt maxima_order (localMaxima fm)"
    and mx: "set (localMaxima fm) = rescan (func fm)"
    by (simp_all add: invariant_def)
  show ?thesis
  proof (cases r)
    case (Some e)
    with Pair erase_rollback [of F a fm e fm'] inv show ?thesis by simp
  next
    case None
    with Pair have ok: "erase F a fm = (None, fm')" by simp
    show ?thesis
    proof (cases "find_impl fm a")
      case absent: None
      with erase_absent [OF absent, of F] inv show ?thesis by auto
    next
      case (Some k)
      then have k: "k < length (func fm)"
        using find_impl_Some_iff [OF ua] by auto
      from erase_present [OF ua sorted mx Some ok] unique_arguments_erase [OF ua k]
      show ?thesis by (simp add: Pair invariant_def)
    qed
  qed
qed

lemma invariant_empty_impl: "invariant empty_impl"
  by (simp add: invariant_def empty_impl_def unique_arguments_def rescan_def is_local_maximum_def)

section \<open>Worlds of handles\<close>

lemma wf_empty_world: "wf_world empty_world"
  by (simp add: wf_world_def empty_world_def)

lemma wf_new: "wf_world w \<Longrightarrow> wf_world (FunctionMaxima_new w)"
  by (auto simp: wf_world_def FunctionMaxima_new_def invariant_empty_impl less_Suc_eq)

lemma wf_copy: "wf_world w \<Longrightarrow> h < length (cow w) \<Longrightarrow> wf_world (FunctionMaxima_copy h w)"
  by (auto simp: wf_world_def FunctionMaxima_copy_def)

lemma wf_impl_of: "wf_world w \<Longrightarrow> h < length (cow w) \<Longrightarrow> invariant (impl_of w h)"
  by (simp add: wf_world_def impl_of_def)

lemma wf_cow_less: "wf_world w \<Longrightarrow> h < length (cow w) \<Longrightarrow> cow w ! h < length (heap w)"
  by (simp add: wf_world_def)

lemma cowMutator_wf:
  assumes f: "\<And>fm. invariant fm \<Longrightarrow> invariant (snd (f fm))"
    and wf: "wf_world w" and h: "h < length (cow w)"
  shows "wf_world (snd (cowMutator F f h w))"
proof -
  let ?p = "cow w ! h"
  have p: "?p < length (heap w)" using wf h by (rule wf_cow_less)
  have ip: "invariant (heap w ! ?p)" using wf p by (simp add: wf_world_def)
  show ?thesis
  proof (cases "use_count w ?p > 1")
    case False
    obtain r fm' where r: "f (heap w ! ?p) = (r, fm')" by (cases "f (heap w ! ?p)")
    with f [OF ip] have "invariant fm'" by simp
    then show ?thesis
      using False wf r
      by (auto simp: cowMutator_def wf_world_def Let_def dest: set_update_subset_insert [THEN subsetD])
  next
    case True
    show ?thesis
    proof (cases "F CloneImpl")
      case c: True
      with True wf h show ?thesis by (simp add: cowMutator_def Let_def list_update_id)
    next
      case c: False
      obtain r fm' where r: "f (heap w ! ?p) = (r, fm')" by (cases "f (heap w ! ?p)")
      with f [OF ip] have i': "invariant fm'" by simp
      show ?thesis
      proof (cases r)
        case None
        have "\<forall>q\<in>set ((cow w)[h := length (heap w)]). q < Suc (length (heap w))"
          using wf by (auto simp: wf_world_def less_Suc_eq dest!: set_update_subset_insert [THEN subsetD])
        with None True c r i' wf show ?thesis
          by (auto simp: cowMutator_def Let_def wf_world_def nth_append)
      next
        case (Some e)
        with True c r wf h show ?thesis
          by (simp add: cowMutator_def Let_def nth_append list_update_id)
      qed
    qed
  qed
qed

lemma length_cow_cowMutator [simp]: "length (cow (snd (cowMutator F f h w))) = length (cow w)"
  by (auto simp: cowMutator_def Let_def split: prod.splits option.splits)

lemma step_wf: "wf_world w \<Longrightarrow> wf_world (step c w)"
  by (cases c)
    (auto simp: wf_new wf_copy fm_set_value_def fm_erase_def
      intro!: cowMutator_wf set_value_invariant erase_invariant)

lemma exec_wf: "wf_world w \<Longrightarrow> wf_world (exec cs w)"
  by (induction cs arbitrary: w) (auto simp: step_wf)

lemma exec_append: "exec (cs @ cs') w = exec cs' (exec cs w)"
  by (induction cs arbitrary: w) auto

lemma reachable_wf: "wf_world (exec cs empty_world)"
  by (rule exec_wf [OF wf_empty_world])

lemma reachable_invariant:
  "h < length (cow (exec cs empty_world)) \<Longrightarrow> invariant (impl_of (exec cs empty_world) h)"
  by (rule wf_impl_of [OF reachable_wf])

section \<open>The maxima index after any sequence of calls\<close>

lemma sorted_maxima_hd:
  "sorted_wrt maxima_order mx \<Longrightarrow> p \<in> set mx \<Longrightarrow> val p \<le> val (hd mx)"
  by (cases mx) (auto simp: maxima_order_def)

lemma globally_maximal_in_rescan:
  assumes "fn \<noteq> []"
  shows "\<exists>p\<in>rescan fn. \<forall>q\<in>set fn. val q \<le> val p"
proof -
  define m where "m = Max (val ` set fn)"
  have "m \<in> val ` set fn" unfolding m_def using assms by (intro Max_in) auto
  then obtain i where i: "i < length fn" "val (fn ! i) = m"
    by (auto simp: in_set_conv_nth)
  have le: "val q \<le> m" if "q \<in> set fn" for q
    unfolding m_def using that by (intro Max_ge) auto
  have "val (fn ! (i - 1)) \<le> val (fn ! i)"
    using i le [of "fn ! (i - 1)"] by (simp add: less_imp_diff_less)
  moreover have "val (fn ! Suc i) \<le> val (fn ! i)" if "Suc i \<noteq> length fn"
  proof -
    from that i have "Suc i < length fn" by linarith
    then show ?thesis using i le [of "fn ! Suc i"] by simp
  qed
  ultimately have "is_local_maximum fn i"
    unfolding is_local_maximum_def using i by blast
  then have "fn ! i \<in> rescan fn" by (auto simp: rescan_def)
  with i le show ?thesis by auto
qed

text \<open>
  Claim C1. After any sequence of calls on an initially empty world (constructions, copies,
  \<open>set_value\<close> and \<open>erase\<close> calls through any handles, each succeeding or failing under its
  own fault plan), the maxima traversal of every handle holds exactly the points that a
  rescan of its function finds to be local maxima, in decreasing order of value, ties in
  increasing order of argument.
\<close>

theorem maxima_traversal_is_rescan:
  assumes "h < length (cow (exec cs empty_world))"
  shows "set (fm_mx_traversal (exec cs empty_world) h) = rescan (fm_traversal (exec cs empty_world) h) \<and>
         sorted_wrt maxima_order (fm_mx_traversal (exec cs empty_world) h)"
  using reachable_invariant [OF assms]
  by (simp add: invariant_def fm_mx_traversal_def fm_traversal_def mx_traversal_def traversal_def)

theorem maxima_traversal_is_rescan_witness:
  "0 < length (cow (exec scenario empty_world)) \<and>
   set (fm_mx_traversal (exec scenario empty_world) 0) = rescan (fm_traversal (exec scenario empty_world) 0) \<and>
   sorted_wrt maxima_order (fm_mx_traversal (exec scenario empty_world) 0)"
proof -
  have h: "0 < length (cow (exec scenario empty_world))" by code_simp
  from h maxima_traversal_is_rescan [OF h] show ?thesis by simp
qed

text \<open>
  Claim C9. After any sequence of calls, no two points stored in the function of a handle
  have equivalent arguments. Inside \<open>set_value\<close> of an argument already present, the store
  handed to the guards holds the old point and, right behind it, the new one.
\<close>

theorem arguments_unique_after_every_call:
  assumes "h < length (cow (exec cs empty_world))"
  shows "(\<forall>i j. i < j \<and> j < fm_size (exec cs empty_world) h \<longrightarrow>
            \<not> equivalentArguments (arg (fm_traversal (exec cs empty_world) h ! i))
                                  (arg (fm_traversal (exec cs empty_world) h ! j))) \<and>
         (\<forall>a v k. find_impl (impl_of (exec cs empty_world) h) a = Some k \<longrightarrow>
            function_insert (point_type a v) (fm_traversal (exec cs empty_world) h) =
              (Suc k, take (Suc k) (fm_traversal (exec cs empty_world) h) @ point_type a v #
                      drop (Suc k) (fm_traversal (exec cs empty_world) h)) \<and>
            arg (fm_traversal (exec cs empty_world) h ! k) = a)"
proof -
  let ?fm = "impl_of (exec cs empty_world) h"
  have ua: "unique_arguments (func ?fm)"
    using reachable_invariant [OF assms] by (simp add: invariant_def)
  have "\<not> equivalentArguments (arg (func ?fm ! i)) (arg (func ?fm ! j))"
    if "i < j" "j < length (func ?fm)" for i j
    using unique_arguments_nth_less [OF ua that] by simp
  moreover have "function_insert (point_type a v) (func ?fm) =
       (Suc k, take (Suc k) (func ?fm) @ point_type a v # drop (Suc k) (func ?fm)) \<and>
       arg (func ?fm ! k) = a"
    if "find_impl ?fm a = Some k" for a v k
  proof -
    from that have k: "k < length (func ?fm)" "arg (func ?fm ! k) = a"
      using find_impl_Some_iff [OF ua] by auto
    then show ?thesis
      using upper_bound_index [OF ua k]
      by (simp add: function_insert_def ComparePointsByArguments_def)
  qed
  ultimately show ?thesis
    by (simp add: fm_size_def size_impl_def fm_traversal_def traversal_def)
qed

theorem arguments_unique_after_every_call_witness:
  "0 < length (cow (exec scenario empty_world)) \<and>
   (0::nat) < 1 \<and> 1 < fm_size (exec scenario empty_world) 0 \<and>
   \<not> equivalentArguments (arg (fm_traversal (exec scenario empty_world) 0 ! 0))
                          (arg (fm_traversal (exec scenario empty_world) 0 ! 1)) \<and>
   find_impl (impl_of (exec scenario empty_world) 0) 4 = Some 3 \<and>
   function_insert (point_type 4 7) (fm_traversal (exec scenario empty_world) 0) =
     (4, take 4 (fm_traversal (exec scenario empty_world) 0) @ point_type 4 7 #
         drop 4 (fm_traversal (exec scenario empty_world) 0))"
proof -
  have h: "0 < length (cow (exec scenario empty_world))" by code_simp
  have s: "1 < fm_size (exec scenario empty_world) 0" by code_simp
  have f: "find_impl (impl_of (exec scenario empty_world) 0) 4 = Some 3" by code_simp
  note t = arguments_unique_after_every_call [OF h]
  from t [THEN conjunct1, THEN spec, THEN spec, of 0 1] s
  have u: "\<not> equivalentArguments (arg (fm_traversal (exec scenario empty_world) 0 ! 0))
                          (arg (fm_traversal (exec scenario empty_world) 0 ! 1))"
    by simp
  from t [THEN conjunct2, THEN spec, THEN spec, THEN spec, of 4 3 7] f
  have i: "function_insert (point_type 4 7) (fm_traversal (exec scenario empty_world) 0) =
     (4, take 4 (fm_traversal (exec scenario empty_world) 0) @ point_type 4 7 #
         drop 4 (fm_traversal (exec scenario empty_world) 0))"
    by simp
  from h s u f i show ?thesis by simp
qed

text \<open>
  Claim C10. After any sequence of calls, a handle whose function is not empty has a
  non-empty maxima traversal, and the first point of that traversal has a value at least
  as large as the value of every stored point.
\<close>

theorem first_maximum_is_global:
  assumes "h < length (cow (exec cs empty_world))"
    and "0 < fm_size (exec cs empty_world) h"
  shows "fm_mx_traversal (exec cs empty_world) h \<noteq> [] \<and>
         (\<forall>p\<in>set (fm_traversal (exec cs empty_world) h).
            val p \<le> val (hd (fm_mx_traversal (exec cs empty_world) h)))"
proof -
  let ?fm = "impl_of (exec cs empty_world) h"
  have inv: "set (localMaxima ?fm) = rescan (func ?fm)" "sorted_wrt maxima_order (localMaxima ?fm)"
    using reachable_invariant [OF assms(1)] by (simp_all add: invariant_def)
  have ne: "func ?fm \<noteq> []" using assms(2) by (simp add: fm_size_def size_impl_def)
  from globally_maximal_in_rescan [OF ne] obtain p where
    p: "p \<in> set (localMaxima ?fm)" "\<forall>q\<in>set (func ?fm). val q \<le> val p"
    using inv(1) by auto
  have "localMaxima ?fm \<noteq> []" using p(1) by auto
  moreover have "val q \<le> val (hd (localMaxima ?fm))" if "q \<in> set (func ?fm)" for q
    using sorted_maxima_hd [OF inv(2) p(1)] p(2) that by (auto intro: order_trans)
  ultimately show ?thesis
    by (simp add: fm_mx_traversal_def fm_traversal_def mx_traversal_def traversal_def)
qed

theorem first_maximum_is_global_witness:
  "0 < length (cow (exec scenario empty_world)) \<and> 0 < fm_size (exec scenario empty_world) 0 \<and>
   fm_mx_traversal (exec scenario empty_world) 0 \<noteq> [] \<and>
   point_type 2 20 \<in> set (fm_traversal (exec scenario empty_world) 0) \<and>
   val (point_type 2 20 :: (int, int) point_type)
     \<le> val (hd (fm_mx_traversal (exec scenario empty_world) 0))"
proof -
  have h: "0 < length (cow (exec scenario empty_world))" by code_simp
  have s: "0 < fm_size (exec scenario empty_world) 0" by code_simp
  have p: "point_type 2 20 \<in> set (fm_traversal (exec scenario empty_world) 0)" by code_simp
  from h s p first_maximum_is_global [OF h s] show ?thesis by blast
qed

section \<open>Copy-on-write: the handle that mutates and the handles that do not\<close>

lemma count_list_two:
  assumes "i < length xs" "j < length xs" "i \<noteq> j" "xs ! i = p" "xs ! j = p"
  shows "1 < count_list xs p"
proof -
  have *: "1 < count_list xs p" if "i < j" "j < length xs" "xs ! i = p" "xs ! j = p" for i j
  proof -
    have xs: "xs = take j xs @ xs ! j # drop (Suc j) xs" using that(2) by (rule id_take_nth_drop)
    have "take j xs ! i = p" "i < length (take j xs)" using that by simp_all
    then have "p \<in> set (take j xs)" using nth_mem by blast
    then have "count_list (take j xs) p \<noteq> 0" by (simp only: count_list_0_iff simp_thms)
    then have "0 < count_list (take j xs) p" by simp
    moreover have "count_list (take j xs @ xs ! j # drop (Suc j) xs) p = count_list xs p"
      by (simp only: xs [symmetric])
    then have "count_list xs p = count_list (take j xs) p + count_list (xs ! j # drop (Suc j) xs) p"
      by simp
    ultimately show ?thesis using that(4) by simp
  qed
  show ?thesis
  proof (cases "i < j")
    case True
    then show ?thesis using assms by (intro * [of i j]) simp_all
  next
    case False
    then have "j < i" using assms(3) by simp
    then show ?thesis using assms by (intro * [of j i]) simp_all
  qed
qed

lemma observe_impl_of:
  "impl_of w' h' = impl_of w h \<Longrightarrow> observe w' h' = observe w h"
  by (simp add: observe_def fm_size_def fm_traversal_def fm_mx_traversal_def fm_value_at_def
      fun_eq_iff)

lemma cowMutator_other:
  assumes wf: "wf_world w" and h: "h < length (cow w)" and h': "h' < length (cow w)"
    and neq: "h' \<noteq> h"
  shows "impl_of (snd (cowMutator F f h w)) h' = impl_of w h'"
proof -
  let ?p = "cow w ! h"
  have p': "cow w ! h' < length (heap w)" using wf h' by (rule wf_cow_less)
  show ?thesis
  proof (cases "use_count w ?p > 1")
    case True
    then show ?thesis
      using neq p' h h'
      by (auto simp: cowMutator_def Let_def impl_of_def nth_append list_update_id
          split: prod.splits option.splits)
  next
    case False
    then have "cow w ! h' \<noteq> ?p"
      using count_list_two [OF h h' neq [symmetric], of ?p] by (auto simp: use_count_def)
    with False show ?thesis
      using neq by (auto simp: cowMutator_def Let_def impl_of_def split: prod.splits)
  qed
qed

lemma cowMutator_self:
  assumes wf: "wf_world w" and h: "h < length (cow w)"
    and f: "\<And>fm e fm'. f fm = (Some e, fm') \<Longrightarrow> fm' = fm"
  shows "fst (cowMutator F f h w) =
           (if 1 < use_count w (cow w ! h) \<and> F CloneImpl then Some (Failure CloneImpl)
            else fst (f (impl_of w h)))"
    and "impl_of (snd (cowMutator F f h w)) h =
           (if 1 < use_count w (cow w ! h) \<and> F CloneImpl then impl_of w h
            else snd (f (impl_of w h)))"
proof -
  let ?p = "cow w ! h"
  have p: "?p < length (heap w)" using wf h by (rule wf_cow_less)
  obtain r fm' where r: "f (heap w ! ?p) = (r, fm')" by (cases "f (heap w ! ?p)")
  have fm': "r \<noteq> None \<Longrightarrow> fm' = heap w ! ?p" using f r by auto
  show "fst (cowMutator F f h w) =
           (if 1 < use_count w (cow w ! h) \<and> F CloneImpl then Some (Failure CloneImpl)
            else fst (f (impl_of w h)))"
    using r by (auto simp: cowMutator_def Let_def impl_of_def split: option.splits)
  show "impl_of (snd (cowMutator F f h w)) h =
           (if 1 < use_count w (cow w ! h) \<and> F CloneImpl then impl_of w h
            else snd (f (impl_of w h)))"
    using r p h fm'
    by (cases r) (auto simp: cowMutator_def Let_def impl_of_def list_update_id nth_append)
qed

section \<open>What a call does to the stored arguments\<close>

lemma value_at_absent_iff:
  assumes "unique_arguments (func fm)" "\<not> F Find"
  shows "value_at F fm a = Inl InvalidArg \<longleftrightarrow> a \<notin> arg ` set (func fm)"
  using find_impl_None_iff [OF assms(1), of a] assms(2)
  by (auto simp: value_at_def Let_def fn_end_def)

lemma value_at_InvalidArg:
  assumes "unique_arguments (func fm)" "value_at F fm a = Inl InvalidArg"
  shows "a \<notin> arg ` set (func fm)"
  using find_impl_None_iff [OF assms(1), of a] assms(2)
  by (auto simp: value_at_def Let_def fn_end_def split: if_splits)

lemma value_at_Inl:
  assumes "value_at F fm a = Inl e"
  shows "e = InvalidArg \<or> (e = Failure Find \<and> F Find)"
  using assms by (auto simp: value_at_def Let_def split: if_splits)

lemma value_at_present:
  assumes "unique_arguments (func fm)" "p \<in> set (func fm)" "\<not> F Find"
  shows "value_at F fm (arg p) = Inr (val p)"
proof -
  from assms(2) obtain i where i: "i < length (func fm)" "func fm ! i = p"
    by (auto simp: in_set_conv_nth)
  then have "find_impl fm (arg p) = Some i" using find_impl_Some_iff [OF assms(1)] by simp
  with i assms(3) show ?thesis by (simp add: value_at_def Let_def fn_end_def deref_def)
qed

lemma value_at_Inr:
  assumes "unique_arguments (func fm)" "value_at G fm a = Inr v"
  shows "\<exists>k. find_impl fm a = Some k \<and> func fm ! k = point_type a v"
proof -
  from assms(2) obtain k where k: "find_impl fm a = Some k" "val (func fm ! k) = v"
    by (auto simp: value_at_def Let_def fn_end_def deref_def split: if_splits)
  then have "arg (func fm ! k) = a" using find_impl_Some_iff [OF assms(1)] by simp
  with k show ?thesis by (auto simp: point_type.expand)
qed

lemma set_value_func:
  assumes inv: "invariant fm" and ok: "set_value F a v fm = (None, fm')"
  shows "point_type a v \<in> set (func fm')"
    and "arg ` set (func fm') = insert a (arg ` set (func fm))"
proof -
  from inv have ua: "unique_arguments (func fm)"
    and sorted: "sorted_wrt maxima_order (localMaxima fm)"
    and mx: "set (localMaxima fm) = rescan (func fm)"
    by (simp_all add: invariant_def)
  have "point_type a v \<in> set (func fm') \<and> arg ` set (func fm') = insert a (arg ` set (func fm))"
  proof (cases "find_impl fm a")
    case None
    let ?k = "length (takeWhile (\<lambda>q. \<not> ComparePointsByArguments (point_type a v) q) (func fm))"
    have "set (take ?k (func fm)) \<union> set (drop ?k (func fm)) = set (func fm)"
      by (metis append_take_drop_id set_append)
    then show ?thesis
      using set_value_absent(1) [OF ua sorted mx None ok refl] by auto
  next
    case (Some k)
    then have k: "k < length (func fm)" "arg (func fm ! k) = a"
      using find_impl_Some_iff [OF ua] by auto
    show ?thesis
    proof (cases "val (func fm ! k) = v")
      case True
      with k have p: "func fm ! k = point_type a v" by (simp add: point_type.expand)
      from set_value_same [OF Some this, of F] ok have "fm' = fm" by simp
      with p k show ?thesis by (metis fst_conv insert_absorb nth_mem point_type.sel(1) rev_image_eqI)
    next
      case False
      have "set ((func fm)[k := point_type a v]) =
              insert (point_type a v) (set (take k (func fm)) \<union> set (drop (Suc k) (func fm)))"
        using k(1) by (simp add: upd_conv_take_nth_drop)
      moreover have "set (func fm) =
              insert (func fm ! k) (set (take k (func fm)) \<union> set (drop (Suc k) (func fm)))"
        using id_take_nth_drop [OF k(1)] by (metis list.simps(15) set_append Un_insert_right)
      ultimately show ?thesis
        using set_value_present(1) [OF ua sorted mx Some False ok] k(2) by auto
    qed
  qed
  then show "point_type a v \<in> set (func fm')"
    and "arg ` set (func fm') = insert a (arg ` set (func fm))" by simp_all
qed

lemma set_value_value_at:
  assumes inv: "invariant fm" and ok: "set_value F a v fm = (None, fm')" and G: "\<not> G Find"
  shows "value_at G fm' a = Inr v"
proof -
  have "invariant fm'" using set_value_invariant [OF inv, of F a v] ok by simp
  then have "unique_arguments (func fm')" by (simp add: invariant_def)
  from value_at_present [where F = G, OF this set_value_func(1) [OF inv ok] G] show ?thesis by simp
qed

lemma erase_func:
  assumes inv: "invariant fm" and ok: "erase F a fm = (None, fm')"
  shows "arg ` set (func fm') = arg ` set (func fm) - {a}"
    and "a \<in> arg ` set (func fm) \<Longrightarrow> set (func fm') = set (func fm) - {p. arg p = a}"
    and "a \<notin> arg ` set (func fm) \<Longrightarrow> fm' = fm"
proof -
  from inv have ua: "unique_arguments (func fm)"
    and sorted: "sorted_wrt maxima_order (localMaxima fm)"
    and mx: "set (localMaxima fm) = rescan (func fm)"
    by (simp_all add: invariant_def)
  show absent: "a \<notin> arg ` set (func fm) \<Longrightarrow> fm' = fm"
    using erase_absent [of fm a F] find_impl_None_iff [OF ua, of a] ok by auto
  have present: "set (func fm') = set (func fm) - {p. arg p = a}" if "a \<in> arg ` set (func fm)"
  proof -
    from that obtain k where f: "find_impl fm a = Some k"
      using find_impl_None_iff [OF ua, of a] by (cases "find_impl fm a") auto
    then have k: "k < length (func fm)" "arg (func fm ! k) = a"
      using find_impl_Some_iff [OF ua] by auto
    have d: "distinct (take k (func fm) @ func fm ! k # drop (Suc k) (func fm))"
      using unique_arguments_distinct [OF ua] id_take_nth_drop [OF k(1)] by simp
    have s: "set (func fm) = insert (func fm ! k) (set (take k (func fm)) \<union> set (drop (Suc k) (func fm)))"
      using id_take_nth_drop [OF k(1)] by (metis list.simps(15) set_append Un_insert_right)
    have only: "q = func fm ! k" if "q \<in> set (func fm)" "arg q = a" for q
    proof -
      from that obtain i where "i < length (func fm)" "func fm ! i = q"
        by (auto simp: in_set_conv_nth)
      with unique_arguments_arg_inj [OF ua this(1) k(1)] that k show ?thesis by auto
    qed
    let ?R = "set (take k (func fm)) \<union> set (drop (Suc k) (func fm))"
    have notin: "func fm ! k \<notin> ?R" using d by auto
    have R: "set (func fm') = ?R"
      unfolding erase_present(1) [OF ua sorted mx f ok] by simp
    have "x \<in> ?R \<longleftrightarrow> x \<in> set (func fm) \<and> arg x \<noteq> a" for x
    proof
      assume x: "x \<in> ?R"
      then have "x \<in> set (func fm)" "x \<noteq> func fm ! k" using s notin by blast+
      then show "x \<in> set (func fm) \<and> arg x \<noteq> a" using only [of x] by blast
    next
      assume x: "x \<in> set (func fm) \<and> arg x \<noteq> a"
      then have "x \<noteq> func fm ! k" using k(2) by blast
      with x show "x \<in> ?R" using s by blast
    qed
    then show ?thesis unfolding R by blast
  qed
  then show "a \<in> arg ` set (func fm) \<Longrightarrow> set (func fm') = set (func fm) - {p. arg p = a}" .
  show "arg ` set (func fm') = arg ` set (func fm) - {a}"
  proof (cases "a \<in> arg ` set (func fm)")
    case True
    from present [OF True] show ?thesis by auto
  next
    case False
    with absent show ?thesis by auto
  qed
qed

section \<open>Calls through handles\<close>

lemma set_value_Some_unchanged: "set_value F a v fm = (Some e, fm') \<Longrightarrow> fm' = fm"
  using set_value_rollback by blast

lemma erase_Some_unchanged: "erase F a fm = (Some e, fm') \<Longrightarrow> fm' = fm"
  using erase_rollback by blast

lemma fm_set_value_other:
  "wf_world w \<Longrightarrow> h < length (cow w) \<Longrightarrow> h' < length (cow w) \<Longrightarrow> h' \<noteq> h \<Longrightarrow>
   impl_of (snd (fm_set_value F h a v w)) h' = impl_of w h'"
  unfolding fm_set_value_def by (rule cowMutator_other)

lemma fm_erase_other:
  "wf_world w \<Longrightarrow> h < length (cow w) \<Longrightarrow> h' < length (cow w) \<Longrightarrow> h' \<noteq> h \<Longrightarrow>
   impl_of (snd (fm_erase F h a w)) h' = impl_of w h'"
  unfolding fm_erase_def by (rule cowMutator_other)

lemma fm_set_value_self:
  assumes "wf_world w" "h < length (cow w)"
  shows "fst (fm_set_value F h a v w) =
           (if 1 < use_count w (cow w ! h) \<and> F CloneImpl then Some (Failure CloneImpl)
            else fst (set_value F a v (impl_of w h)))"
    and "impl_of (snd (fm_set_value F h a v w)) h =
           (if 1 < use_count w (cow w ! h) \<and> F CloneImpl then impl_of w h
            else snd (set_value F a v (impl_of w h)))"
  unfolding fm_set_value_def
  by (rule cowMutator_self [OF assms set_value_Some_unchanged], assumption)+

lemma fm_erase_self:
  assumes "wf_world w" "h < length (cow w)"
  shows "fst (fm_erase F h a w) =
           (if 1 < use_count w (cow w ! h) \<and> F CloneImpl then Some (Failure CloneImpl)
            else fst (erase F a (impl_of w h)))"
    and "impl_of (snd (fm_erase F h a w)) h =
           (if 1 < use_count w (cow w ! h) \<and> F CloneImpl then impl_of w h
            else snd (erase F a (impl_of w h)))"
  unfolding fm_erase_def
  by (rule cowMutator_self [OF assms erase_Some_unchanged], assumption)+

lemma copy_impl_of:
  "h < length (cow w) \<Longrightarrow> h' < length (cow w) \<Longrightarrow>
   impl_of (FunctionMaxima_copy h w) h' = impl_of w h' \<and>
   impl_of (FunctionMaxima_copy h w) (length (cow w)) = impl_of w h"
  by (simp add: FunctionMaxima_copy_def impl_of_def nth_append)

lemma new_impl_of:
  "wf_world w \<Longrightarrow> h' < length (cow w) \<Longrightarrow> impl_of (FunctionMaxima_new w) h' = impl_of w h'"
  using wf_cow_less [of w h']
  by (simp add: FunctionMaxima_new_def impl_of_def nth_append)

lemma length_cow_step: "length (cow w) \<le> length (cow (step c w))"
  by (cases c)
    (simp_all add: FunctionMaxima_new_def FunctionMaxima_copy_def fm_set_value_def fm_erase_def)

lemma length_cow_exec: "length (cow w) \<le> length (cow (exec cs w))"
  by (induction cs arbitrary: w) (auto intro: order_trans [OF length_cow_step])

text \<open>An argument that is absent stays absent while no \<open>set_value\<close> puts it back.\<close>

lemma step_keeps_absent:
  assumes wf: "wf_world w" and h: "h < length (cow w)"
    and absent: "a \<notin> arg ` set (func (impl_of w h))"
    and c: "\<not> reinserts h a [c]"
  shows "a \<notin> arg ` set (func (impl_of (step c w) h))"
proof (cases c)
  case Construct
  with absent new_impl_of [OF wf h] show ?thesis by simp
next
  case (Copy h')
  with absent copy_impl_of [of h' w h] h show ?thesis by simp
next
  case (SetValue F h' a' v)
  show ?thesis
  proof (cases "h' < length (cow w)")
    case False
    with SetValue absent show ?thesis by simp
  next
    case valid: True
    show ?thesis
    proof (cases "h' = h")
      case False
      with SetValue absent fm_set_value_other [OF wf valid h] valid show ?thesis by simp
    next
      case True
      with SetValue c have neq: "a' \<noteq> a" by simp
      let ?fm = "impl_of w h"
      have inv: "invariant ?fm" by (rule wf_impl_of [OF wf h])
      obtain r fm' where r: "set_value F a' v ?fm = (r, fm')" by (cases "set_value F a' v ?fm")
      have "a \<notin> arg ` set (func fm')"
      proof (cases r)
        case None
        with set_value_func(2) [OF inv] r absent neq show ?thesis by auto
      next
        case (Some e)
        with set_value_Some_unchanged r absent show ?thesis by blast
      qed
      with True SetValue valid absent fm_set_value_self(2) [OF wf h, of F a' v] r
      show ?thesis by (simp split: if_splits)
    qed
  qed
next
  case (Erase F h' a')
  show ?thesis
  proof (cases "h' < length (cow w)")
    case False
    with Erase absent show ?thesis by simp
  next
    case valid: True
    show ?thesis
    proof (cases "h' = h")
      case False
      with Erase absent fm_erase_other [OF wf valid h] valid show ?thesis by simp
    next
      case True
      let ?fm = "impl_of w h"
      have inv: "invariant ?fm" by (rule wf_impl_of [OF wf h])
      obtain r fm' where r: "erase F a' ?fm = (r, fm')" by (cases "erase F a' ?fm")
      have "a \<notin> arg ` set (func fm')"
      proof (cases r)
        case None
        with erase_func(1) [OF inv] r absent show ?thesis by auto
      next
        case (Some e)
        with erase_Some_unchanged r absent show ?thesis by blast
      qed
      with True Erase valid absent fm_erase_self(2) [OF wf h, of F a'] r
      show ?thesis by (simp split: if_splits)
    qed
  qed
qed

lemma reinserts_Cons: "reinserts h a (c # cs) \<longleftrightarrow> reinserts h a [c] \<or> reinserts h a cs"
  by (cases c) auto

lemma exec_keeps_absent:
  assumes "wf_world w" "h < length (cow w)" "a \<notin> arg ` set (func (impl_of w h))"
    "\<not> reinserts h a cs"
  shows "a \<notin> arg ` set (func (impl_of (exec cs w) h))"
  using assms
proof (induction cs arbitrary: w)
  case Nil
  then show ?case by simp
next
  case (Cons c cs)
  from Cons.prems(4) have c: "\<not> reinserts h a [c]" and cs: "\<not> reinserts h a cs"
    using reinserts_Cons [of h a c cs] by auto
  have "h < length (cow (step c w))"
    using Cons.prems(2) length_cow_step [of w c] by simp
  from Cons.IH [OF step_wf [OF Cons.prems(1)] this
      step_keeps_absent [OF Cons.prems(1-3) c] cs]
  show ?case by simp
qed

section \<open>Copy-on-write isolation\<close>

text \<open>
  Claim C3. In a world reached by any sequence of calls, a \<open>set_value\<close> or an \<open>erase\<close>
  through one handle, whether it returns or raises, changes nothing that can be observed
  through any other handle, in particular through a handle that shares the implementation;
  and copying a handle changes nothing observable through the handles that exist, the new
  handle observing what the copied one does.
\<close>

theorem copy_on_write_isolation:
  assumes "w = exec cs empty_world" "h < length (cow w)" "h' < length (cow w)" "h' \<noteq> h"
  shows "observe (snd (fm_set_value F h a v w)) h' = observe w h' \<and>
         observe (snd (fm_erase F h a w)) h' = observe w h' \<and>
         observe (FunctionMaxima_copy h w) h' = observe w h' \<and>
         observe (FunctionMaxima_copy h w) h = observe w h \<and>
         observe (FunctionMaxima_copy h w) (length (cow w)) = observe w h"
proof -
  have wf: "wf_world w" unfolding assms(1) by (rule reachable_wf)
  show ?thesis
    using fm_set_value_other [OF wf assms(2,3,4)] fm_erase_other [OF wf assms(2,3,4)]
      copy_impl_of [OF assms(2,3)] copy_impl_of [OF assms(2,2)]
    by (intro conjI observe_impl_of) simp_all
qed

theorem copy_on_write_isolation_witness:
  "1 < length (cow (exec (scenario @ [Copy 0]) empty_world)) \<and>
   0 < length (cow (exec (scenario @ [Copy 0]) empty_world)) \<and>
   cow (exec (scenario @ [Copy 0]) empty_world) ! 0 = cow (exec (scenario @ [Copy 0]) empty_world) ! 1 \<and>
   fst (fm_set_value no_faults 1 4 1 (exec (scenario @ [Copy 0]) empty_world)) = None \<and>
   observe (snd (fm_set_value no_faults 1 4 1 (exec (scenario @ [Copy 0]) empty_world))) 0
     = observe (exec (scenario @ [Copy 0]) empty_world) 0 \<and>
   observe (snd (fm_erase no_faults 1 4 (exec (scenario @ [Copy 0]) empty_world))) 0
     = observe (exec (scenario @ [Copy 0]) empty_world) 0 \<and>
   observe (FunctionMaxima_copy 1 (exec (scenario @ [Copy 0]) empty_world)) 0
     = observe (exec (scenario @ [Copy 0]) empty_world) 0"
proof -
  let ?w = "exec (scenario @ [Copy 0]) empty_world"
  have h1: "1 < length (cow ?w)" by code_simp
  have h0: "0 < length (cow ?w)" by code_simp
  have sh: "cow ?w ! 0 = cow ?w ! 1" by code_simp
  have ok: "fst (fm_set_value no_faults 1 4 1 ?w) = None" by code_simp
  from copy_on_write_isolation [OF refl h1 h0, of no_faults 4 1] h1 h0 sh ok
  show ?thesis by simp
qed

section \<open>Lookup\<close>

text \<open>
  Claim C4. In a world reached by any sequence of calls, and under every fault plan of the
  lookup: when the lookup does not throw, \<open>value_at\<close> raises \<open>InvalidArg\<close> exactly when no
  stored point has an argument equivalent to the one asked for, and otherwise returns the
  value stored with that argument. Whether or not the lookup throws, \<open>InvalidArg\<close> is raised
  for an absent argument only, a value that is returned is the one stored with the argument,
  and the only other exception is the failure of the lookup, which is passed on.
  \<open>value_at\<close> is a \<open>const\<close> member: it is a function of the world and returns no new world.
\<close>

theorem value_at_invalid_iff_absent:
  assumes "w = exec cs empty_world" "h < length (cow w)"
  shows "(\<not> F Find \<longrightarrow>
            (fm_value_at F w h a = Inl InvalidArg \<longleftrightarrow>
               \<not> (\<exists>p\<in>set (fm_traversal w h). equivalentArguments (arg p) a)) \<and>
            (\<forall>p\<in>set (fm_traversal w h). equivalentArguments (arg p) a \<longrightarrow>
               fm_value_at F w h a = Inr (val p))) \<and>
         (fm_value_at F w h a = Inl InvalidArg \<longrightarrow>
            \<not> (\<exists>p\<in>set (fm_traversal w h). equivalentArguments (arg p) a)) \<and>
         (\<forall>v. fm_value_at F w h a = Inr v \<longrightarrow>
            (\<exists>p\<in>set (fm_traversal w h). equivalentArguments (arg p) a \<and> val p = v)) \<and>
         (\<forall>e. fm_value_at F w h a = Inl e \<longrightarrow> e = InvalidArg \<or> (e = Failure Find \<and> F Find))"
proof -
  have "invariant (impl_of w h)" using assms reachable_invariant by blast
  then have ua: "unique_arguments (func (impl_of w h))" by (simp add: invariant_def)
  have 1: "fm_value_at F w h a = Inl InvalidArg \<longleftrightarrow>
            \<not> (\<exists>p\<in>set (fm_traversal w h). equivalentArguments (arg p) a)" if "\<not> F Find"
    using value_at_absent_iff [where F = F and a = a, OF ua that]
    by (auto simp: fm_value_at_def fm_traversal_def traversal_def)
  have 2: "\<forall>p\<in>set (fm_traversal w h). equivalentArguments (arg p) a \<longrightarrow>
            fm_value_at F w h a = Inr (val p)" if "\<not> F Find"
    using value_at_present [where F = F, OF ua _ that]
    by (auto simp: fm_value_at_def fm_traversal_def traversal_def)
  have 3: "\<not> (\<exists>p\<in>set (fm_traversal w h). equivalentArguments (arg p) a)"
    if "fm_value_at F w h a = Inl InvalidArg"
    using value_at_InvalidArg [OF ua, of F a] that
    by (auto simp: fm_value_at_def fm_traversal_def traversal_def)
  have 4: "\<exists>p\<in>set (fm_traversal w h). equivalentArguments (arg p) a \<and> val p = v"
    if "fm_value_at F w h a = Inr v" for v
  proof -
    from value_at_Inr [OF ua, of F a v] that obtain k where
      k: "find_impl (impl_of w h) a = Some k" "func (impl_of w h) ! k = point_type a v"
      by (auto simp: fm_value_at_def)
    from k(1) have "k < length (func (impl_of w h))"
      using find_impl_Some_iff [OF ua] by blast
    with k(2) have "point_type a v \<in> set (fm_traversal w h)"
      unfolding fm_traversal_def traversal_def by (metis nth_mem)
    then show ?thesis by (intro bexI [of _ "point_type a v"]) simp_all
  qed
  have 5: "e = InvalidArg \<or> (e = Failure Find \<and> F Find)" if "fm_value_at F w h a = Inl e" for e
    using that value_at_Inl [of F "impl_of w h" a e] by (simp add: fm_value_at_def)
  from 1 2 3 4 5 show ?thesis by blast
qed

theorem value_at_invalid_iff_absent_witness:
  "0 < length (cow (exec scenario empty_world)) \<and>
   \<not> no_faults Find \<and>
   fm_value_at no_faults (exec scenario empty_world) 0 6 = Inl InvalidArg \<and>
   point_type 4 30 \<in> set (fm_traversal (exec scenario empty_world) 0) \<and>
   fm_value_at no_faults (exec scenario empty_world) 0 4 = Inr 30 \<and>
   fault_at Find Find \<and>
   fm_value_at (fault_at Find) (exec scenario empty_world) 0 4 = Inl (Failure Find)"
proof -
  let ?w = "exec scenario empty_world"
  have h0: "0 < length (cow ?w)" by code_simp
  have n: "\<not> no_faults Find" by (simp add: no_faults_def)
  have a: "\<not> (\<exists>p\<in>set (fm_traversal ?w 0). equivalentArguments (arg p) 6)" by code_simp
  have p: "point_type 4 30 \<in> set (fm_traversal ?w 0)" by code_simp
  have f: "fault_at Find Find" by (simp add: fault_at_def)
  obtain e where e: "fm_value_at (fault_at Find) ?w 0 4 = Inl e"
    by (simp add: fm_value_at_def value_at_def f)
  from value_at_invalid_iff_absent [OF refl h0, of no_faults 6] a n
  have "fm_value_at no_faults ?w 0 6 = Inl InvalidArg" by blast
  moreover from value_at_invalid_iff_absent [OF refl h0, of no_faults 4] p n
  have "fm_value_at no_faults ?w 0 4 = Inr 30" by fastforce
  moreover from value_at_invalid_iff_absent [OF refl h0, of "fault_at Find" 4] e p
  have "fm_value_at (fault_at Find) ?w 0 4 = Inl (Failure Find)" by fastforce
  ultimately show ?thesis using h0 n p f by blast
qed

lemma fm_set_value_value_at:
  assumes wf: "wf_world w" and h: "h < length (cow w)"
    and ok: "fm_set_value F h a v w = (None, w')" and G: "\<not> G Find"
  shows "fm_value_at G w' h a = Inr v"
proof -
  have inv: "invariant (impl_of w h)" by (rule wf_impl_of [OF wf h])
  note s = fm_set_value_self [OF wf h, of F a v]
  from s(1) ok have ok': "fst (set_value F a v (impl_of w h)) = None"
    and c: "\<not> (1 < use_count w (cow w ! h) \<and> F CloneImpl)"
    by (auto split: if_splits)
  from s(2) c ok have "impl_of w' h = snd (set_value F a v (impl_of w h))" by auto
  moreover have "set_value F a v (impl_of w h) = (None, snd (set_value F a v (impl_of w h)))"
    using ok' by (simp add: prod_eq_iff)
  ultimately show ?thesis
    using set_value_value_at [where G = G and F = F and a = a and v = v, OF inv _ G]
    by (simp add: fm_value_at_def)
qed

section \<open>Reading back what was set\<close>

text \<open>
  Claim C5. In a world reached by any sequence of calls, when \<open>set_value(a, v)\<close> through a
  handle returns normally, \<open>value_at(a)\<close> through that handle returns \<open>v\<close> whenever its lookup
  does not throw. Under every fault plan of the lookup it returns no value but \<open>v\<close>, it
  never raises \<open>InvalidArg\<close>, and it raises only when the lookup throws, passing that
  failure on.
\<close>

theorem set_value_then_value_at:
  assumes "w = exec cs empty_world" "h < length (cow w)"
    and "fm_set_value F h a v w = (None, w')"
  shows "(\<not> G Find \<longrightarrow> fm_value_at G w' h a = Inr v) \<and>
         (\<forall>v'. fm_value_at G w' h a = Inr v' \<longrightarrow> v' = v) \<and>
         (\<forall>e. fm_value_at G w' h a = Inl e \<longrightarrow> e = Failure Find \<and> G Find)"
proof -
  have wf: "wf_world w" unfolding assms(1) by (rule reachable_wf)
  have ok: "fm_value_at G w' h a = Inr v" if "\<not> G Find"
    by (rule fm_set_value_value_at [where G = G, OF wf assms(2,3) that])
  have G: "fm_value_at G w' h a = Inl (Failure Find)" if "G Find"
    using that by (simp add: fm_value_at_def value_at_def)
  from ok G show ?thesis by (cases "G Find") auto
qed

theorem set_value_then_value_at_witness:
  "0 < length (cow (exec scenario empty_world)) \<and>
   fst (fm_set_value no_faults 0 3 25 (exec scenario empty_world)) = None \<and>
   \<not> no_faults Find \<and>
   fm_value_at no_faults (snd (fm_set_value no_faults 0 3 25 (exec scenario empty_world))) 0 3
     = Inr 25"
proof -
  let ?w = "exec scenario empty_world"
  have h0: "0 < length (cow ?w)" by code_simp
  have n: "\<not> no_faults Find" by (simp add: no_faults_def)
  have ok: "fst (fm_set_value no_faults 0 3 25 ?w) = None" by code_simp
  then have "fm_set_value no_faults 0 3 25 ?w = (None, snd (fm_set_value no_faults 0 3 25 ?w))"
    by (simp add: prod_eq_iff)
  from set_value_then_value_at [OF refl h0 this, of no_faults] h0 ok n show ?thesis by simp
qed

section \<open>Erasing\<close>

lemma erase_absent_snd: "find_impl fm a = None \<Longrightarrow> snd (erase F a fm) = fm"
  using erase_absent [of fm a F] by auto

text \<open>
  Claim C6. In a world reached by any sequence of calls: \<open>erase(a)\<close> through a handle whose
  function has no entry at \<open>a\<close> changes nothing observable through any handle. After an
  \<open>erase(a)\<close> that returned normally, and after any further calls among which none is a
  \<open>set_value\<close> of \<open>a\<close> through that handle, \<open>value_at(a)\<close> through that handle raises
  \<open>InvalidArg\<close> whenever its lookup does not throw, and under every fault plan of the
  lookup it returns no value and raises nothing but \<open>InvalidArg\<close> or the failure of the
  lookup; no point with argument \<open>a\<close> is left in the function or among the maxima, and the
  other points of the function are the ones that were there.
\<close>

theorem erase_absent_or_removed:
  assumes "w = exec cs empty_world" "h < length (cow w)"
  shows "(\<not> (\<exists>p\<in>set (fm_traversal w h). equivalentArguments (arg p) a) \<longrightarrow>
            (\<forall>h'<length (cow w). observe (snd (fm_erase F h a w)) h' = observe w h')) \<and>
         (fm_erase F h a w = (None, w') \<longrightarrow>
            (\<forall>cs'. \<not> reinserts h a cs' \<longrightarrow>
               (\<forall>G. (\<not> G Find \<longrightarrow> fm_value_at G (exec cs' w') h a = Inl InvalidArg) \<and>
                    (\<forall>v. fm_value_at G (exec cs' w') h a \<noteq> Inr v) \<and>
                    (\<forall>e. fm_value_at G (exec cs' w') h a = Inl e \<longrightarrow>
                       e = InvalidArg \<or> (e = Failure Find \<and> G Find)))) \<and>
            (\<forall>p\<in>set (fm_traversal w' h) \<union> set (fm_mx_traversal w' h).
               \<not> equivalentArguments (arg p) a) \<and>
            set (fm_traversal w' h) =
              {p \<in> set (fm_traversal w h). \<not> equivalentArguments (arg p) a})"
proof -
  let ?fm = "impl_of w h"
  have wf: "wf_world w" unfolding assms(1) by (rule reachable_wf)
  have inv: "invariant ?fm" by (rule wf_impl_of [OF wf assms(2)])
  then have ua: "unique_arguments (func ?fm)" by (simp add: invariant_def)
  note s = fm_erase_self [OF wf assms(2), of F a]
  have noop: "observe (snd (fm_erase F h a w)) h' = observe w h'"
    if absent: "\<not> (\<exists>p\<in>set (fm_traversal w h). equivalentArguments (arg p) a)"
      and h': "h' < length (cow w)" for h'
  proof (rule observe_impl_of, cases "h' = h")
    case True
    from absent have "find_impl ?fm a = None"
      using find_impl_None_iff [OF ua, of a]
      by (auto simp: fm_traversal_def traversal_def)
    then show "impl_of (snd (fm_erase F h a w)) h' = impl_of w h'"
      using s(2) True by (simp add: erase_absent_snd)
  next
    case False
    then show "impl_of (snd (fm_erase F h a w)) h' = impl_of w h'"
      by (rule fm_erase_other [OF wf assms(2) h'])
  qed
  have removed:
    "(\<forall>cs'. \<not> reinserts h a cs' \<longrightarrow>
        (\<forall>G. (\<not> G Find \<longrightarrow> fm_value_at G (exec cs' w') h a = Inl InvalidArg) \<and>
             (\<forall>v. fm_value_at G (exec cs' w') h a \<noteq> Inr v) \<and>
             (\<forall>e. fm_value_at G (exec cs' w') h a = Inl e \<longrightarrow>
                e = InvalidArg \<or> (e = Failure Find \<and> G Find)))) \<and>
     (\<forall>p\<in>set (fm_traversal w' h) \<union> set (fm_mx_traversal w' h). \<not> equivalentArguments (arg p) a) \<and>
     set (fm_traversal w' h) = {p \<in> set (fm_traversal w h). \<not> equivalentArguments (arg p) a}"
    if ok: "fm_erase F h a w = (None, w')"
  proof -
    let ?fm' = "impl_of w' h"
    from s(1) ok have ok': "fst (erase F a ?fm) = None"
      and c: "\<not> (1 < use_count w (cow w ! h) \<and> F CloneImpl)"
      by (auto split: if_splits)
    from s(2) c ok have fm': "?fm' = snd (erase F a ?fm)" by auto
    have e: "erase F a ?fm = (None, ?fm')" using ok' fm' by (simp add: prod_eq_iff)
    have w': "w' = step (Erase F h a) w" using ok assms(2) by simp
    have wf': "wf_world w'" unfolding w' by (rule step_wf [OF wf])
    have h': "h < length (cow w')" using ok assms(2) length_cow_step [of w "Erase F h a"] w' by simp
    have inv': "invariant ?fm'" by (rule wf_impl_of [OF wf' h'])
    have absent': "a \<notin> arg ` set (func ?fm')" using erase_func(1) [OF inv e] by simp
    have later: "(\<not> G Find \<longrightarrow> fm_value_at G (exec cs' w') h a = Inl InvalidArg) \<and>
        (\<forall>v. fm_value_at G (exec cs' w') h a \<noteq> Inr v) \<and>
        (\<forall>e. fm_value_at G (exec cs' w') h a = Inl e \<longrightarrow>
           e = InvalidArg \<or> (e = Failure Find \<and> G Find))"
      if "\<not> reinserts h a cs'" for cs' G
    proof -
      let ?fm'' = "impl_of (exec cs' w') h"
      have "h < length (cow (exec cs' w'))" using h' length_cow_exec [of w' cs'] by simp
      from wf_impl_of [OF exec_wf [OF wf'] this]
      have ua'': "unique_arguments (func ?fm'')" by (simp add: invariant_def)
      have absent'': "a \<notin> arg ` set (func ?fm'')"
        by (rule exec_keeps_absent [OF wf' h' absent' that])
      have "value_at G ?fm'' a = Inl InvalidArg" if "\<not> G Find"
        using value_at_absent_iff [where F = G and a = a, OF ua'' that] absent'' by simp
      moreover have "value_at G ?fm'' a \<noteq> Inr v" for v
      proof
        assume "value_at G ?fm'' a = Inr v"
        from value_at_Inr [OF ua'' this] obtain k where
          k: "find_impl ?fm'' a = Some k" by blast
        with find_impl_None_iff [OF ua'', of a] absent'' show False by simp
      qed
      moreover have "e = InvalidArg \<or> (e = Failure Find \<and> G Find)"
        if "value_at G ?fm'' a = Inl e" for e
        by (rule value_at_Inl [OF that])
      ultimately show ?thesis unfolding fm_value_at_def by blast
    qed
    have mx': "set (localMaxima ?fm') \<subseteq> set (func ?fm')"
      using inv' rescan_subset [of "func ?fm'"] by (simp add: invariant_def)
    have gone: "\<forall>p\<in>set (func ?fm') \<union> set (localMaxima ?fm'). arg p \<noteq> a"
      using absent' mx' by auto
    have rest: "set (func ?fm') = {p \<in> set (func ?fm). arg p \<noteq> a}"
    proof (cases "a \<in> arg ` set (func ?fm)")
      case True
      from erase_func(2) [OF inv e True] show ?thesis by auto
    next
      case False
      from erase_func(3) [OF inv e False] False show ?thesis by auto
    qed
    show ?thesis
      unfolding fm_traversal_def fm_mx_traversal_def traversal_def mx_traversal_def
        equivalentArguments_iff
      using later gone rest by blast
  qed
  from noop removed show ?thesis by blast
qed

theorem erase_absent_or_removed_witness:
  "0 < length (cow (exec scenario empty_world)) \<and>
   \<not> (\<exists>p\<in>set (fm_traversal (exec scenario empty_world) 0). equivalentArguments (arg p) 6) \<and>
   observe (snd (fm_erase no_faults 0 6 (exec scenario empty_world))) 0
     = observe (exec scenario empty_world) 0 \<and>
   fst (fm_erase no_faults 0 4 (exec scenario empty_world)) = None \<and>
   \<not> reinserts 0 4 ([SetValue no_faults 0 7 1, Erase no_faults 0 1] :: (int, int) call list) \<and>
   \<not> no_faults Find \<and>
   fm_value_at no_faults (exec [SetValue no_faults 0 7 1, Erase no_faults 0 1]
       (snd (fm_erase no_faults 0 4 (exec scenario empty_world)))) 0 4 = Inl InvalidArg \<and>
   set (fm_traversal (snd (fm_erase no_faults 0 4 (exec scenario empty_world))) 0) =
     {p \<in> set (fm_traversal (exec scenario empty_world) 0). \<not> equivalentArguments (arg p) 4}"
proof -
  let ?w = "exec scenario empty_world"
  let ?cs = "[SetValue no_faults 0 7 1, Erase no_faults 0 1] :: (int, int) call list"
  have h0: "0 < length (cow ?w)" by code_simp
  have a: "\<not> (\<exists>p\<in>set (fm_traversal ?w 0). equivalentArguments (arg p) 6)" by code_simp
  have ok: "fst (fm_erase no_faults 0 4 ?w) = None" by code_simp
  then have e: "fm_erase no_faults 0 4 ?w = (None, snd (fm_erase no_faults 0 4 ?w))"
    by (simp add: prod_eq_iff)
  have r: "\<not> reinserts 0 4 ?cs" by simp
  have n: "\<not> no_faults Find" by (simp add: no_faults_def)
  note t6 = erase_absent_or_removed [OF refl h0, of 6 no_faults, THEN conjunct1, THEN mp, OF a,
      THEN spec, THEN mp, OF h0]
  note t4 = erase_absent_or_removed [OF refl h0, of 4 no_faults "snd (fm_erase no_faults 0 4 ?w)",
      THEN conjunct2, THEN mp, OF e]
  note t4a = t4 [THEN conjunct1, THEN spec, THEN mp, OF r, THEN spec, of no_faults,
      THEN conjunct1, THEN mp, OF n]
  note t4c = t4 [THEN conjunct2, THEN conjunct2]
  show ?thesis
    by (intro conjI h0 a t6 ok r n t4a t4c)
qed

section \<open>Setting a value that is already there\<close>

lemma set_value_same_fst:
  assumes "find_impl fm a = Some k" "func fm ! k = point_type a v"
  shows "fst (set_value F a v fm) =
           (if F Find then Some (Failure Find)
            else if F MakePoint then Some (Failure MakePoint)
            else if F EquivalentPoints then Some (Failure EquivalentPoints)
            else None)"
  using assms by (simp add: set_value_def Let_def fn_end_def deref_def)

text \<open>
  Claim C7 fails as stated: \<open>set_value\<close> builds the candidate point, which allocates, before
  it compares it with the stored one, so the call can raise although the value is already
  there; and through a handle that shares its implementation the call clones the
  implementation first.
\<close>

theorem set_value_same_value_can_raise:
  "fm_value_at no_faults (exec scenario empty_world) 0 4 = Inr 30 \<and>
   fst (fm_set_value (fault_at MakePoint) 0 4 30 (exec scenario empty_world))
     = Some (Failure MakePoint) \<and>
   fm_value_at no_faults (exec (scenario @ [Copy 0]) empty_world) 1 4 = Inr 30 \<and>
   fst (fm_set_value no_faults 1 4 30 (exec (scenario @ [Copy 0]) empty_world)) = None \<and>
   length (heap (snd (fm_set_value no_faults 1 4 30 (exec (scenario @ [Copy 0]) empty_world))))
     = Suc (length (heap (exec (scenario @ [Copy 0]) empty_world)))"
  by code_simp

text \<open>
  Claim C7, amended. In a world reached by any sequence of calls, when \<open>a\<close> is mapped to
  \<open>v\<close> (\<open>value_at(a)\<close> returns \<open>v\<close>), \<open>set_value(a, v)\<close> changes nothing observable through any handle, whether it returns
  or raises, and leaves both containers of the implementation as they are; it raises only
  at the clone of a shared implementation, at the lookup, at the allocation of the candidate
  point or at its comparison with the stored point, and returns normally when none of these
  fails. After a \<open>set_value\<close> that returned normally, the same \<open>set_value\<close> again changes nothing
  observable.
\<close>

theorem set_value_same_value_changes_nothing:
  assumes "w = exec cs empty_world" "h < length (cow w)"
  shows "(fm_value_at G w h a = Inr v \<longrightarrow>
            (\<forall>h'<length (cow w). observe (snd (fm_set_value F h a v w)) h' = observe w h') \<and>
            snd (set_value F a v (impl_of w h)) = impl_of w h \<and>
            fst (fm_set_value F h a v w) =
              (if 1 < use_count w (cow w ! h) \<and> F CloneImpl then Some (Failure CloneImpl)
               else if F Find then Some (Failure Find)
               else if F MakePoint then Some (Failure MakePoint)
               else if F EquivalentPoints then Some (Failure EquivalentPoints)
               else None)) \<and>
         (fm_set_value F h a v w = (None, w1) \<longrightarrow>
            (\<forall>h'<length (cow w1). observe (snd (fm_set_value F2 h a v w1)) h' = observe w1 h'))"
proof -
  have noop: "(\<forall>h'<length (cow w). observe (snd (fm_set_value F h a v w)) h' = observe w h') \<and>
            snd (set_value F a v (impl_of w h)) = impl_of w h \<and>
            fst (fm_set_value F h a v w) =
              (if 1 < use_count w (cow w ! h) \<and> F CloneImpl then Some (Failure CloneImpl)
               else if F Find then Some (Failure Find)
               else if F MakePoint then Some (Failure MakePoint)
               else if F EquivalentPoints then Some (Failure EquivalentPoints)
               else None)"
    if wf: "wf_world w" and h: "h < length (cow w)" and mapped: "fm_value_at G w h a = Inr v"
    for w :: "('a, 'b) world" and F G
  proof -
    let ?fm = "impl_of w h"
    have "invariant ?fm" by (rule wf_impl_of [OF wf h])
    then have ua: "unique_arguments (func ?fm)" by (simp add: invariant_def)
    from value_at_Inr [OF ua, of G a v] mapped obtain k where
      k: "find_impl ?fm a = Some k" "func ?fm ! k = point_type a v"
      by (auto simp: fm_value_at_def)
    note same = set_value_same [OF k, of F] set_value_same_fst [OF k, of F]
    note s = fm_set_value_self [OF wf h, of F a v]
    have "observe (snd (fm_set_value F h a v w)) h' = observe w h'" if h': "h' < length (cow w)" for h'
    proof (rule observe_impl_of, cases "h' = h")
      case True
      then show "impl_of (snd (fm_set_value F h a v w)) h' = impl_of w h'"
        using s(2) same(1) by simp
    next
      case False
      then show "impl_of (snd (fm_set_value F h a v w)) h' = impl_of w h'"
        by (rule fm_set_value_other [OF wf h h'])
    qed
    then show ?thesis using same s(1) by simp
  qed
  have wf: "wf_world w" unfolding assms(1) by (rule reachable_wf)
  have again: "\<forall>h'<length (cow w1). observe (snd (fm_set_value F2 h a v w1)) h' = observe w1 h'"
    if ok: "fm_set_value F h a v w = (None, w1)"
  proof -
    have w1: "w1 = step (SetValue F h a v) w" using ok assms(2) by simp
    have wf1: "wf_world w1" unfolding w1 by (rule step_wf [OF wf])
    have h1: "h < length (cow w1)"
      using assms(2) length_cow_step [of w "SetValue F h a v"] w1 by simp
    have "\<not> no_faults Find" by (simp add: no_faults_def)
    then have "fm_value_at no_faults w1 h a = Inr v"
      by (rule fm_set_value_value_at [where G = no_faults, OF wf assms(2) ok])
    from noop [OF wf1 h1 this, of F2] show ?thesis by blast
  qed
  from noop [OF wf assms(2), of G F] again show ?thesis by blast
qed

theorem set_value_same_value_changes_nothing_witness:
  "0 < length (cow (exec scenario empty_world)) \<and>
   fm_value_at no_faults (exec scenario empty_world) 0 4 = Inr 30 \<and>
   observe (snd (fm_set_value (fault_at MakePoint) 0 4 30 (exec scenario empty_world))) 0
     = observe (exec scenario empty_world) 0 \<and>
   fst (fm_set_value no_faults 0 4 30 (exec scenario empty_world)) = None \<and>
   observe (snd (fm_set_value no_faults 0 4 30
       (snd (fm_set_value no_faults 0 4 30 (exec scenario empty_world))))) 0
     = observe (snd (fm_set_value no_faults 0 4 30 (exec scenario empty_world))) 0"
proof -
  let ?w = "exec scenario empty_world"
  let ?w1 = "snd (fm_set_value no_faults 0 4 30 ?w)"
  have h0: "0 < length (cow ?w)" by code_simp
  have m: "fm_value_at no_faults ?w 0 4 = Inr 30" by code_simp
  have ok: "fst (fm_set_value no_faults 0 4 30 ?w) = None" by code_simp
  then have e: "fm_set_value no_faults 0 4 30 ?w = (None, ?w1)" by (simp add: prod_eq_iff)
  have h1: "0 < length (cow ?w1)" by code_simp
  note t1 = set_value_same_value_changes_nothing [OF refl h0,
      where G = no_faults and a = 4 and v = 30 and F = "fault_at MakePoint",
      THEN conjunct1, THEN mp, OF m, THEN conjunct1, THEN spec, THEN mp, OF h0]
  note t2 = set_value_same_value_changes_nothing [OF refl h0,
      where a = 4 and v = 30 and F = no_faults and ?w1.0 = "?w1" and ?F2.0 = no_faults,
      THEN conjunct2, THEN mp, OF e, THEN spec, THEN mp, OF h1]
  show ?thesis by (intro conjI h0 m t1 ok t2)
qed

section \<open>The scenario of the specification\<close>

text \<open>
  Claim C8. After inserting (1,10), (2,20), (3,10), (4,30), (5,5) into an empty structure
  the maxima traversal yields (4,30) then (2,20); after erasing 4 it yields (2,20) only,
  the points at 3 and 5 not being local maxima of the function that is left.
\<close>

theorem scenario_maxima:
  "fm_mx_traversal (exec scenario empty_world) 0 = [point_type 4 30, point_type 2 20] \<and>
   fm_mx_traversal (exec (scenario @ [Erase no_faults 0 4]) empty_world) 0 = [point_type 2 20] \<and>
   fm_traversal (exec (scenario @ [Erase no_faults 0 4]) empty_world) 0
     = [point_type 1 10, point_type 2 20, point_type 3 10, point_type 5 5] \<and>
   \<not> is_local_maximum (fm_traversal (exec (scenario @ [Erase no_faults 0 4]) empty_world) 0) 2 \<and>
   \<not> is_local_maximum (fm_traversal (exec (scenario @ [Erase no_faults 0 4]) empty_world) 0) 3"
  by code_simp

end
